theory Spec2Isabelle
  imports Main
begin

section \<open>JavaScript values read from the store file and the session file\<close>

text \<open>
  A JSON value as \<^verbatim>\<open>JSON.parse\<close> reads it, kept as written: a number is its decimal
  mantissa and exponent (\<open>JNum m e\<close> stands for \<open>m * 10 ^ e\<close>), a string is the text
  between its quotes with the escape sequences left in place, an object is its members in
  the order of the text. \<open>truthy\<close> is the test \<^verbatim>\<open>if (obj)\<close> of JavaScript on such a value.
\<close>

datatype json =
    JNull
  | JBool bool
  | JNum int int
  | JStr string
  | JArr "json list"
  | JObj "(string \<times> json) list"

text \<open>
  A decimal \<open>m * 10 ^ e\<close> becomes the double \<open>0\<close> exactly when its magnitude is at most
  \<open>2 ^ -1075\<close>, half of the smallest subnormal (the tie rounds to even, which is zero).
\<close>

definition number_is_zero :: "int \<Rightarrow> int \<Rightarrow> bool" where
  "number_is_zero m e =
     (if m = 0 then True
      else if 0 \<le> e then False
      else \<bar>m\<bar> * 2 ^ 1075 \<le> 10 ^ nat (- e))"

fun truthy :: "json \<Rightarrow> bool" where
  "truthy JNull = False"
| "truthy (JBool b) = b"
| "truthy (JNum m e) = (\<not> number_is_zero m e)"
| "truthy (JStr s) = (s \<noteq> [])"
| "truthy (JArr xs) = True"
| "truthy (JObj ms) = True"

text \<open>\<^verbatim>\<open>if (getItem(key))\<close>: a missing or null item is falsy.\<close>

definition truthy_item :: "json option \<Rightarrow> bool" where
  "truthy_item x = (case x of None \<Rightarrow> False | Some v \<Rightarrow> truthy v)"

subsection \<open>\<^verbatim>\<open>content.split(/\r?\n/)\<close>\<close>

text \<open>
  The separator is a line feed, together with the carriage return right before it when
  there is one. A carriage return that no line feed follows stays in its piece. The result
  is never empty: the empty text gives one empty piece.
\<close>

fun split_lines :: "string \<Rightarrow> string list" where
  "split_lines [] = [[]]"
| "split_lines (c # cs) =
     (if c = CHR 0x0A then [] # split_lines cs
      else if c = CHR 0x0D \<and> cs \<noteq> [] \<and> hd cs = CHR 0x0A then [] # split_lines (tl cs)
      else (case split_lines cs of
              [] \<Rightarrow> [[c]]
            | l # ls \<Rightarrow> (c # l) # ls))"

subsection \<open>A reading of \<^verbatim>\<open>JSON.parse\<close>\<close>

text \<open>
  The functions of the extension take the parser as an argument \<open>parse\<close>, \<open>None\<close> being
  the \<^verbatim>\<open>SyntaxError\<close> it throws. \<open>JSON_parse\<close> below is the grammar of ECMA-404 on texts of
  8-bit characters; the concrete runs of this file instantiate \<open>parse\<close> with it.
\<close>

definition is_ws :: "char \<Rightarrow> bool" where
  "is_ws c = (c = CHR 0x20 \<or> c = CHR 0x09 \<or> c = CHR 0x0A \<or> c = CHR 0x0D)"

definition skip_ws :: "string \<Rightarrow> string" where
  "skip_ws s = dropWhile is_ws s"

definition is_digit :: "char \<Rightarrow> bool" where
  "is_digit c = (48 \<le> (of_char c :: nat) \<and> (of_char c :: nat) \<le> 57)"

definition is_hex :: "char \<Rightarrow> bool" where
  "is_hex c =
     (is_digit c
      \<or> (65 \<le> (of_char c :: nat) \<and> (of_char c :: nat) \<le> 70)
      \<or> (97 \<le> (of_char c :: nat) \<and> (of_char c :: nat) \<le> 102))"

definition digits_value :: "string \<Rightarrow> int" where
  "digits_value ds = foldl (\<lambda>acc d. 10 * acc + (int (of_char d) - 48)) 0 ds"

text \<open>The characters of a string literal after its opening quote, up to the closing one.\<close>

fun lex_string :: "string \<Rightarrow> (string \<times> string) option" where
  "lex_string [] = None"
| "lex_string (c # cs) =
     (if c = CHR 0x22 then Some ([], cs)
      else if c = CHR 0x5C then
        (case cs of
           [] \<Rightarrow> None
         | e # r \<Rightarrow>
             if e \<in> set [CHR 0x22, CHR 0x5C, CHR ''/'', CHR ''b'', CHR ''f'', CHR ''n'',
                          CHR ''r'', CHR ''t''] then
               (case lex_string r of
                  None \<Rightarrow> None
                | Some (str, rest) \<Rightarrow> Some (c # e # str, rest))
             else if e = CHR ''u'' \<and> 4 \<le> length r \<and> list_all is_hex (take 4 r) then
               (case lex_string (drop 4 r) of
                  None \<Rightarrow> None
                | Some (str, rest) \<Rightarrow> Some (c # e # take 4 r @ str, rest))
             else None)
      else if (of_char c :: nat) < 32 then None
      else (case lex_string cs of
              None \<Rightarrow> None
            | Some (str, rest) \<Rightarrow> Some (c # str, rest)))"

text \<open>
  A number: an optional minus, \<open>0\<close> or a digit sequence without a leading zero, an optional
  fraction, an optional exponent.
\<close>

definition lex_exponent :: "string \<Rightarrow> (int \<times> string) option" where
  "lex_exponent s =
     (if s \<noteq> [] \<and> (hd s = CHR ''e'' \<or> hd s = CHR ''E'') then
        (let s1 = tl s;
             neg = (s1 \<noteq> [] \<and> hd s1 = CHR ''-'');
             s2 = (if s1 \<noteq> [] \<and> (hd s1 = CHR ''-'' \<or> hd s1 = CHR ''+'') then tl s1 else s1);
             ds = takeWhile is_digit s2
         in if ds = [] then None
            else Some ((if neg then - digits_value ds else digits_value ds),
                       dropWhile is_digit s2))
      else Some (0, s))"

definition lex_number :: "string \<Rightarrow> (json \<times> string) option" where
  "lex_number s =
     (let neg = (s \<noteq> [] \<and> hd s = CHR ''-'');
          s1 = (if neg then tl s else s);
          ip = takeWhile is_digit s1;
          s2 = dropWhile is_digit s1
      in if ip = [] \<or> (hd ip = CHR ''0'' \<and> length ip \<noteq> 1) then None
         else
           (let dot = (s2 \<noteq> [] \<and> hd s2 = CHR ''.'');
                fp = (if dot then takeWhile is_digit (tl s2) else []);
                s3 = (if dot then dropWhile is_digit (tl s2) else s2)
            in if dot \<and> fp = [] then None
               else
                 (case lex_exponent s3 of
                    None \<Rightarrow> None
                  | Some (ex, rest) \<Rightarrow>
                      Some (JNum ((if neg then - 1 else 1) * digits_value (ip @ fp))
                                 (ex - int (length fp)),
                            rest))))"

definition strip_prefix :: "string \<Rightarrow> string \<Rightarrow> string option" where
  "strip_prefix p s = (if take (length p) s = p then Some (drop (length p) s) else None)"

text \<open>
  Values, array elements and object members, by recursive descent. The first argument
  bounds the depth of the calls. \<open>JSON_parse\<close> starts it one above the length of the
  text, which is enough for every text (\<open>parse_value_fuel\<close> below): a result \<open>None\<close>
  is a syntax error and never an exhausted bound.
\<close>

fun parse_value :: "nat \<Rightarrow> string \<Rightarrow> (json \<times> string) option"
  and parse_elements :: "nat \<Rightarrow> json list \<Rightarrow> string \<Rightarrow> (json \<times> string) option"
  and parse_members :: "nat \<Rightarrow> (string \<times> json) list \<Rightarrow> string \<Rightarrow> (json \<times> string) option"
where
  "parse_value 0 s = None"
| "parse_value (Suc k) s =
     (case skip_ws s of
        [] \<Rightarrow> None
      | c # r \<Rightarrow>
          if c = CHR ''n'' then map_option (Pair JNull) (strip_prefix ''ull'' r)
          else if c = CHR ''t'' then map_option (Pair (JBool True)) (strip_prefix ''rue'' r)
          else if c = CHR ''f'' then map_option (Pair (JBool False)) (strip_prefix ''alse'' r)
          else if c = CHR 0x22 then
            (case lex_string r of
               None \<Rightarrow> None
             | Some (str, rest) \<Rightarrow> Some (JStr str, rest))
          else if c = CHR ''['' then
            (case skip_ws r of
               [] \<Rightarrow> None
             | d # r' \<Rightarrow> if d = CHR '']'' then Some (JArr [], r') else parse_elements k [] r)
          else if c = CHR ''{'' then
            (case skip_ws r of
               [] \<Rightarrow> None
             | d # r' \<Rightarrow> if d = CHR ''}'' then Some (JObj [], r') else parse_members k [] r)
          else lex_number (c # r))"
| "parse_elements 0 acc s = None"
| "parse_elements (Suc k) acc s =
     (case parse_value k s of
        None \<Rightarrow> None
      | Some (v, rest) \<Rightarrow>
          (case skip_ws rest of
             [] \<Rightarrow> None
           | d # r' \<Rightarrow>
               if d = CHR '','' then parse_elements k (acc @ [v]) r'
               else if d = CHR '']'' then Some (JArr (acc @ [v]), r')
               else None))"
| "parse_members 0 acc s = None"
| "parse_members (Suc k) acc s =
     (case skip_ws s of
        [] \<Rightarrow> None
      | q # r \<Rightarrow>
          if q \<noteq> CHR 0x22 then None
          else
            (case lex_string r of
               None \<Rightarrow> None
             | Some (key, r1) \<Rightarrow>
                 (case skip_ws r1 of
                    [] \<Rightarrow> None
                  | colon # r2 \<Rightarrow>
                      if colon \<noteq> CHR '':'' then None
                      else
                        (case parse_value k r2 of
                           None \<Rightarrow> None
                         | Some (v, rest) \<Rightarrow>
                             (case skip_ws rest of
                                [] \<Rightarrow> None
                              | d # r' \<Rightarrow>
                                  if d = CHR '','' then parse_members k (acc @ [(key, v)]) r'
                                  else if d = CHR ''}'' then Some (JObj (acc @ [(key, v)]), r')
                                  else None)))))"

definition JSON_parse :: "string \<Rightarrow> json option" where
  "JSON_parse s =
     (case parse_value (Suc (length s)) s of
        None \<Rightarrow> None
      | Some (v, rest) \<Rightarrow> if skip_ws rest = [] then Some v else None)"

text \<open>
  A parser with the bound \<open>k\<close> is good when each of its results leaves a shorter text
  and is also the result with every bound that is at least the number of characters read.
\<close>

definition good_value :: "nat \<Rightarrow> bool" where
  "good_value k = (\<forall>s v r. parse_value k s = Some (v, r) \<longrightarrow>
      length r < length s \<and> (\<forall>j. length s - length r \<le> j \<longrightarrow> parse_value j s = Some (v, r)))"

definition good_elements :: "nat \<Rightarrow> bool" where
  "good_elements k = (\<forall>acc s v r. parse_elements k acc s = Some (v, r) \<longrightarrow>
      length r < length s
      \<and> (\<forall>j. length s - length r \<le> j \<longrightarrow> parse_elements j acc s = Some (v, r)))"

definition good_members :: "nat \<Rightarrow> bool" where
  "good_members k = (\<forall>acc s v r. parse_members k acc s = Some (v, r) \<longrightarrow>
      length r < length s
      \<and> (\<forall>j. length s - length r \<le> j \<longrightarrow> parse_members j acc s = Some (v, r)))"

section \<open>The extension's entry points: \<^verbatim>\<open>isAuthenticated\<close> and \<^verbatim>\<open>sendOfflineData\<close>\<close>

text \<open>
  What the modules do to the world outside them, in the order they do it: the calls of the
  HTTP client, the reachability probe, writes of session items, what is shown to the user,
  functions of other modules that are started. The functions below append to such a list;
  nothing reads it. Console output (\<^verbatim>\<open>console.log\<close>, \<^verbatim>\<open>logIt\<close>) is left out.
\<close>

datatype effect =
    SoftwarePost string json "json option"
  | SoftwareGet string "json option"
  | ServerIsAvailable
  | ShowErrorStatus
  | SetItem string "json option"
  | SendHeartbeat string
  | InitializePreferences
  | GetSessionSummaryStatus
  | ExecuteCommand string
  | ShowInformationMessage string
  | BuildWebDashboardUrl
  | BuildLoginUrl
  | LaunchWebUrl
  | CreateAnonymousUser
  | Callback bool
  | ShowOfflinePrompt

text \<open>
  The file at \<^verbatim>\<open>getSoftwareDataStoreFile()\<close>: absent, present with its text, or present and
  not readable (\<^verbatim>\<open>readFileSync\<close> throws into the \<^verbatim>\<open>catch\<close> of \<^verbatim>\<open>sendOfflineData\<close>).
\<close>

datatype file_state = Absent | Unreadable | Content string

text \<open>
  A response of the HTTP client, as its two predicates see it: \<^verbatim>\<open>isResponseOk(resp)\<close> and
  \<^verbatim>\<open>isUserDeactivated(resp)\<close>.
\<close>

record response =
  isResponseOk :: bool
  isUserDeactivated :: bool

text \<open>
  The module variable \<open>TELEMETRY_ON\<close>, the store file, the session items behind
  \<^verbatim>\<open>getItem\<close> (a missing or null item is \<open>None\<close>), and the effects so far.
\<close>

record ext_state =
  TELEMETRY_ON :: bool
  dataStoreFile :: file_state
  items :: "string \<Rightarrow> json option"
  effects :: "effect list"

definition handlePauseMetricsEvent :: "ext_state \<Rightarrow> ext_state" where
  "handlePauseMetricsEvent s = s\<lparr>TELEMETRY_ON := False\<rparr>"

definition handleEnableMetricsEvent :: "ext_state \<Rightarrow> ext_state" where
  "handleEnableMetricsEvent s = s\<lparr>TELEMETRY_ON := True\<rparr>"

text \<open>
  \<^verbatim>\<open>isAuthenticated\<close>. \<open>ping\<close> is the response that \<^verbatim>\<open>softwareGet("/users/ping", jwt)\<close> resolves
  to, should the call be made.
\<close>

definition isAuthenticated :: "response \<Rightarrow> ext_state \<Rightarrow> ext_state \<times> bool" where
  "isAuthenticated ping s =
     (if \<not> TELEMETRY_ON s then (s, True)
      else if \<not> truthy_item (items s ''token'') then
        (s\<lparr>effects := effects s @ [ShowErrorStatus]\<rparr>, False)
      else
        (s\<lparr>effects := effects s @ [SoftwareGet ''/users/ping'' (items s ''jwt'')]\<rparr>,
         isResponseOk ping))"

text \<open>
  The callback of \<^verbatim>\<open>map\<close> in \<^verbatim>\<open>sendOfflineData\<close>: \<open>obj\<close> starts as \<^verbatim>\<open>null\<close>, a non-empty
  line is parsed, a parse error is swallowed, and a truthy \<open>obj\<close> is returned; otherwise
  the callback returns \<^verbatim>\<open>undefined\<close> (\<open>None\<close>).
\<close>

definition parse_item :: "(string \<Rightarrow> json option) \<Rightarrow> string \<Rightarrow> json option" where
  "parse_item parse item =
     (let obj = (if item \<noteq> [] then (case parse item of None \<Rightarrow> JNull | Some v \<Rightarrow> v)
                 else JNull)
      in if truthy obj then Some obj else None)"

text \<open>\<^verbatim>\<open>.filter(item => item)\<close> on the mapped lines.\<close>

definition filter_truthy :: "json option list \<Rightarrow> json list" where
  "filter_truthy xs = List.map_filter (\<lambda>x. if truthy_item x then x else None) xs"

definition payloads_of :: "(string \<Rightarrow> json option) \<Rightarrow> string \<Rightarrow> json list" where
  "payloads_of parse content = filter_truthy (map (parse_item parse) (split_lines content))"

text \<open>
  \<^verbatim>\<open>sendOfflineData\<close>, up to the point where it returns: with telemetry on, a store file
  that exists and a text that is not empty, it posts the parsed lines to \<^verbatim>\<open>/data/batch\<close>.
  The second component is the batch of the request it left pending, if it made one.
\<close>

definition sendOfflineData ::
  "(string \<Rightarrow> json option) \<Rightarrow> ext_state \<Rightarrow> ext_state \<times> json list option" where
  "sendOfflineData parse s =
     (if \<not> TELEMETRY_ON s then (s, None)
      else
        (case dataStoreFile s of
           Absent \<Rightarrow> (s, None)
         | Unreadable \<Rightarrow> (s, None)
         | Content content \<Rightarrow>
             if content = [] then (s, None)
             else
               (let payloads = payloads_of parse content
                in (s\<lparr>effects := effects s
                          @ [SoftwarePost ''/data/batch'' (JArr payloads) (items s ''jwt'')]\<rparr>,
                    Some payloads))))"

text \<open>
  Modelled from the spec: \<^verbatim>\<open>deleteFile\<close> of \<^verbatim>\<open>lib/Util\<close> is not among the sources. The
  spec's \<open>LocalRecordStore.clear()\<close> "deletes the backing file. No-op if absent."
\<close>

definition deleteFile :: "ext_state \<Rightarrow> ext_state" where
  "deleteFile s = s\<lparr>dataStoreFile := Absent\<rparr>"

text \<open>
  The callback given to \<^verbatim>\<open>then\<close>, run when the post resolves to \<open>resp\<close>: on an accepted
  or a deactivated response it calls \<^verbatim>\<open>serverIsAvailable()\<close> and waits (the flag says so).
\<close>

definition sendOfflineData_then :: "response \<Rightarrow> ext_state \<Rightarrow> ext_state \<times> bool" where
  "sendOfflineData_then resp s =
     (if isResponseOk resp \<or> isUserDeactivated resp then
        (s\<lparr>effects := effects s @ [ServerIsAvailable]\<rparr>, True)
      else (s, False))"

text \<open>The rest of that callback, run when \<^verbatim>\<open>serverIsAvailable()\<close> resolves.\<close>

definition sendOfflineData_resume :: "bool \<Rightarrow> ext_state \<Rightarrow> ext_state" where
  "sendOfflineData_resume serverAvailable s = (if serverAvailable then deleteFile s else s)"

text \<open>
  One flush from the call to the end of its callback, nothing else running in between:
  \<open>resp\<close> answers the post and \<open>serverAvailable\<close> the probe, where they are made.
\<close>

definition flush ::
  "(string \<Rightarrow> json option) \<Rightarrow> response \<Rightarrow> bool \<Rightarrow> ext_state \<Rightarrow> ext_state" where
  "flush parse resp serverAvailable s =
     (case sendOfflineData parse s of
        (s1, None) \<Rightarrow> s1
      | (s1, Some batch) \<Rightarrow>
          (case sendOfflineData_then resp s1 of
             (s2, False) \<Rightarrow> s2
           | (s2, True) \<Rightarrow> sendOfflineData_resume serverAvailable s2))"

text \<open>
  Modelled from the spec: the function that writes the store file is not among the
  sources. The spec's \<open>LocalRecordStore.append(record)\<close> "serializes record as one line of
  JSON and appends to the backing file; creates the file if absent. Never fails the caller
  on I/O error (error is logged, record may be lost)". \<open>stringify\<close> is the serialiser and
  \<open>eol\<close> the line terminator written after the record.
\<close>

definition store_append ::
  "(json \<Rightarrow> string) \<Rightarrow> string \<Rightarrow> json \<Rightarrow> ext_state \<Rightarrow> ext_state" where
  "store_append stringify eol record s =
     (case dataStoreFile s of
        Absent \<Rightarrow> s\<lparr>dataStoreFile := Content (stringify record @ eol)\<rparr>
      | Unreadable \<Rightarrow> s
      | Content content \<Rightarrow> s\<lparr>dataStoreFile := Content (content @ stringify record @ eol)\<rparr>)"

subsection \<open>Vocabulary of the properties\<close>

text \<open>A line of text: no line feed and no carriage return in it.\<close>

definition line_text :: "string \<Rightarrow> bool" where
  "line_text l = (CHR 0x0A \<notin> set l \<and> CHR 0x0D \<notin> set l)"

text \<open>The text of a file whose lines are \<open>ls\<close>, a line feed between two lines.\<close>

fun join_lines :: "string list \<Rightarrow> string" where
  "join_lines [] = []"
| "join_lines [l] = l"
| "join_lines (l # l' # ls) = l @ CHR 0x0A # join_lines (l' # ls)"

text \<open>
  What one line contributes to the batch, said without the code's words: nothing when it
  is empty or does not parse, its value when that is truthy (every object and array is),
  nothing again for the values \<^verbatim>\<open>null\<close>, \<^verbatim>\<open>false\<close>, \<^verbatim>\<open>0\<close> and \<^verbatim>\<open>""\<close>.
\<close>

definition kept :: "(string \<Rightarrow> json option) \<Rightarrow> string \<Rightarrow> json list" where
  "kept parse l =
     (if l = [] then []
      else (case parse l of None \<Rightarrow> [] | Some v \<Rightarrow> if truthy v then [v] else []))"

text \<open>
  What happens to the store while the backend cannot be reached: records are appended,
  and flushes are attempted whose post comes back neither accepted nor deactivated.
\<close>

datatype offline_op = Append json | Attempt response bool

definition offline_step ::
  "(string \<Rightarrow> json option) \<Rightarrow> (json \<Rightarrow> string) \<Rightarrow> string \<Rightarrow> ext_state \<Rightarrow> offline_op
     \<Rightarrow> ext_state" where
  "offline_step parse stringify eol s op =
     (case op of
        Append record \<Rightarrow> store_append stringify eol record s
      | Attempt resp serverAvailable \<Rightarrow> flush parse resp serverAvailable s)"

definition appended :: "offline_op list \<Rightarrow> json list" where
  "appended ops =
     concat (map (\<lambda>op. case op of Append record \<Rightarrow> [record] | Attempt resp a \<Rightarrow> []) ops)"

text \<open>
  An appended record is serialised to one non-empty line that parses back to it and is
  truthy (what \<^verbatim>\<open>JSON.stringify\<close> and \<^verbatim>\<open>JSON.parse\<close> do on an object); an attempt made
  while the backend is unreachable gets no accepting answer.
\<close>

definition while_unreachable ::
  "(string \<Rightarrow> json option) \<Rightarrow> (json \<Rightarrow> string) \<Rightarrow> offline_op \<Rightarrow> bool" where
  "while_unreachable parse stringify op =
     (case op of
        Append record \<Rightarrow>
          stringify record \<noteq> [] \<and> line_text (stringify record)
          \<and> parse (stringify record) = Some record \<and> truthy record
      | Attempt resp serverAvailable \<Rightarrow>
          \<not> isResponseOk resp \<and> \<not> isUserDeactivated resp)"

text \<open>The store file that holds the records \<open>rs\<close>, one per line, and nothing else.\<close>

definition store_text :: "(json \<Rightarrow> string) \<Rightarrow> string \<Rightarrow> json list \<Rightarrow> file_state" where
  "store_text stringify eol rs =
     (if rs = [] then Absent else Content (concat (map (\<lambda>r. stringify r @ eol) rs)))"

text \<open>States and values of the concrete runs.\<close>

definition example_state :: "file_state \<Rightarrow> ext_state" where
  "example_state store =
     \<lparr>TELEMETRY_ON = True, dataStoreFile = store, items = (\<lambda>k. None), effects = []\<rparr>"

definition accepted :: response where
  "accepted = \<lparr>isResponseOk = True, isUserDeactivated = False\<rparr>"

definition rejected :: response where
  "rejected = \<lparr>isResponseOk = False, isUserDeactivated = False\<rparr>"

definition example_stringify :: "json \<Rightarrow> string" where
  \<open>example_stringify r = (if r = JObj [(''a'', JNum 1 0)] then ''{"a":1}'' else ''{"b":2}'')\<close>

section \<open>The data controller: cached login state and the lazy re-check\<close>

text \<open>
  \<^verbatim>\<open>getItem\<close> and \<^verbatim>\<open>setItem\<close> of \<^verbatim>\<open>lib/Util\<close> are not among the sources; they are taken
  as the reads and writes of a map from keys to values, \<open>None\<close> for a missing or null
  item. \<open>LoggedInState\<close> of \<^verbatim>\<open>model/models\<close> is taken with the one field the controller uses.
\<close>

record LoggedInState =
  loggedIn :: bool

text \<open>
  What \<^verbatim>\<open>softwareGet("/users/plugin/state", jwt)\<close> resolves to: whether \<^verbatim>\<open>isResponseOk\<close>
  holds of it, and its \<^verbatim>\<open>data\<close> when that is truthy, with the three fields read from it.
\<close>

record plugin_state =
  data_state :: "json option"
  data_email :: "json option"
  data_jwt :: "json option"

record state_response =
  state_ok :: bool
  state_data :: "plugin_state option"

text \<open>
  The module variables \<open>connectState\<close>, \<open>lastLoggedInCheckTime\<close> and \<open>userFetchTimeout\<close>
  (true when it holds a timer handle, false when it is \<^verbatim>\<open>null\<close>), and around them: the
  callbacks that \<^verbatim>\<open>setTimeout\<close> has scheduled and not yet run, each with the
  \<open>tryCountUntilFoundUser\<close> its closure holds; the handlers that have started and wait for
  the network, each with its count; the session items; the calls made so far.
\<close>

record dc_state =
  connectState :: "LoggedInState option"
  lastLoggedInCheckTime :: "int option"
  userFetchTimeout :: bool
  timers :: "nat list"
  awaiting :: "nat list"
  session :: "string \<Rightarrow> json option"
  dc_effects :: "effect list"

definition setItem :: "string \<Rightarrow> json option \<Rightarrow> dc_state \<Rightarrow> dc_state" where
  "setItem key v s =
     s\<lparr>session := (session s)(key := v), dc_effects := dc_effects s @ [SetItem key v]\<rparr>"

text \<open>
  \<^verbatim>\<open>isLoggedOn\<close>. \<open>resp\<close> is the answer of the backend, used when the call is made: only
  with the server online and a stored jwt.
\<close>

definition isLoggedOn ::
  "bool \<Rightarrow> state_response \<Rightarrow> dc_state \<Rightarrow> dc_state \<times> bool \<times> json" where
  "isLoggedOn serverIsOnline resp s =
     (let jwt = session s ''jwt'' in
      if serverIsOnline \<and> truthy_item jwt then
        (let s0 = s\<lparr>dc_effects := dc_effects s @ [SoftwareGet ''/users/plugin/state'' jwt]\<rparr> in
         case (if state_ok resp then state_data resp else None) of
           None \<Rightarrow> (s0, False, JStr ''UNKNOWN'')
         | Some d \<Rightarrow>
             (let state = (case data_state d of
                             None \<Rightarrow> JStr ''UNKNOWN''
                           | Some v \<Rightarrow> if truthy v then v else JStr ''UNKNOWN'') in
              if state = JStr ''OK'' then
                (let s1 = (if session s0 ''name'' \<noteq> data_email d
                           then setItem ''name'' (data_email d) s0 else s0);
                     s2 = (if truthy_item (data_jwt d) \<and> data_jwt d \<noteq> jwt
                           then setItem ''jwt'' (data_jwt d) s1 else s1);
                     s3 = (if truthy_item (session s2 ''check_status'')
                           then setItem ''check_status'' None s2 else s2)
                 in (s3, True, state))
              else (s0, False, state)))
      else (s, False, JStr ''UNKNOWN''))"

definition clearCachedLoggedInState :: "dc_state \<Rightarrow> dc_state" where
  "clearCachedLoggedInState s = s\<lparr>connectState := None\<rparr>"

text \<open>\<^verbatim>\<open>if (lastLoggedInCheckTime)\<close>: a time is set when it is neither \<^verbatim>\<open>null\<close> nor \<open>0\<close>.\<close>

definition time_set :: "int option \<Rightarrow> bool" where
  "time_set t = (case t of None \<Rightarrow> False | Some n \<Rightarrow> n \<noteq> 0)"

text \<open>
  The second half of \<^verbatim>\<open>getUserStatus\<close>, from \<^verbatim>\<open>let loggedIn = false\<close> on: the check
  against the backend when the server is online, the new \<open>connectState\<close>, the name item
  dropped when not logged in, and, when logged in, \<^verbatim>\<open>sendHeartbeat\<close> and
  \<^verbatim>\<open>initializePreferences\<close> started and not awaited (the list of calls records that they
  were started).
\<close>

definition fetchUserStatus ::
  "bool \<Rightarrow> state_response \<Rightarrow> dc_state \<Rightarrow> dc_state \<times> LoggedInState" where
  "fetchUserStatus serverIsOnline resp s =
     (let (s1, loggedIn) =
            (if serverIsOnline
             then (case isLoggedOn serverIsOnline resp s of
                     (s', loggedOn, state) \<Rightarrow> (s', loggedOn))
             else (s, False));
          s2 = s1\<lparr>connectState := Some \<lparr>loggedIn = loggedIn\<rparr>\<rparr>;
          s3 = (if \<not> loggedIn \<and> truthy_item (session s2 ''name'')
                then setItem ''name'' None s2 else s2);
          s4 = (if serverIsOnline \<and> loggedIn
                then s3\<lparr>dc_effects := dc_effects s3
                          @ [SendHeartbeat ''STATE_CHANGE:LOGGED_IN:true'',
                             InitializePreferences]\<rparr>
                else s3)
      in (s4, \<lparr>loggedIn = loggedIn\<rparr>))"

text \<open>
  \<^verbatim>\<open>getUserStatus(serverIsOnline, ignoreCache)\<close> at the time \<open>now\<close> (\<^verbatim>\<open>moment().unix()\<close>, in
  seconds). With a cached state and no order to ignore it: a check time that is set and
  more than \<open>60 * 5\<close> seconds old drops both the cache and the check time; a check time
  that is not set is set to \<open>now\<close>; and a cache that is still there is returned.
\<close>

definition getUserStatus ::
  "int \<Rightarrow> bool \<Rightarrow> bool \<Rightarrow> state_response \<Rightarrow> dc_state \<Rightarrow> dc_state \<times> LoggedInState" where
  "getUserStatus now serverIsOnline ignoreCache resp s =
     (if \<not> ignoreCache \<and> connectState s \<noteq> None then
        (let s1 = (if time_set (lastLoggedInCheckTime s) then
                     (if now - the (lastLoggedInCheckTime s) > 60 * 5
                      then s\<lparr>lastLoggedInCheckTime := None, connectState := None\<rparr>
                      else s)
                   else s\<lparr>lastLoggedInCheckTime := Some now\<rparr>)
         in case connectState s1 of
              Some cached \<Rightarrow> (s1, cached)
            | None \<Rightarrow> fetchUserStatus serverIsOnline resp s1)
      else fetchUserStatus serverIsOnline resp s)"

text \<open>
  \<^verbatim>\<open>refetchUserStatusLazily\<close>: nothing while \<open>userFetchTimeout\<close> holds a handle; otherwise
  a callback is scheduled and its handle kept.
\<close>

definition refetchUserStatusLazily :: "nat \<Rightarrow> dc_state \<Rightarrow> dc_state" where
  "refetchUserStatusLazily tryCountUntilFoundUser s =
     (if userFetchTimeout s then s
      else s\<lparr>userFetchTimeout := True, timers := timers s @ [tryCountUntilFoundUser]\<rparr>)"

text \<open>
  The scheduled callback runs: it clears \<open>userFetchTimeout\<close> and calls
  \<^verbatim>\<open>userStatusFetchHandler\<close>, which asks \<^verbatim>\<open>serverIsAvailable()\<close> and waits.
\<close>

definition timer_fires :: "dc_state \<Rightarrow> dc_state" where
  "timer_fires s =
     (case timers s of
        [] \<Rightarrow> s
      | n # rest \<Rightarrow>
          s\<lparr>timers := rest, userFetchTimeout := False, awaiting := awaiting s @ [n],
            dc_effects := dc_effects s @ [ServerIsAvailable]\<rparr>)"

text \<open>
  \<^verbatim>\<open>userStatusFetchHandler\<close> from the point where its awaits are answered
  (\<open>serverIsOnline\<close> by the probe, \<open>resp\<close> by the backend) to its end. The two awaits are
  taken as one point of suspension: what the handler reads and writes there, the cache and
  the items, is not what the guard of \<open>refetchUserStatusLazily\<close> reads.
\<close>

definition userStatusFetchHandler ::
  "nat \<Rightarrow> int \<Rightarrow> bool \<Rightarrow> state_response \<Rightarrow> dc_state \<Rightarrow> dc_state" where
  "userStatusFetchHandler tryCountUntilFoundUser now serverIsOnline resp s =
     (case getUserStatus now serverIsOnline True resp s of
        (s1, userStatus) \<Rightarrow>
          if \<not> loggedIn userStatus then
            (if tryCountUntilFoundUser > 0
             then refetchUserStatusLazily (tryCountUntilFoundUser - 1) s1
             else setItem ''check_status'' (Some (JBool True)) s1)
          else
            (let s2 = clearCachedLoggedInState s1
             in s2\<lparr>dc_effects := dc_effects s2
                      @ [GetSessionSummaryStatus, ExecuteCommand ''codetime.refreshKpmTree'',
                         ShowInformationMessage ''Successfully logged on to Code Time'']\<rparr>))"

text \<open>The \<open>i\<close>-th waiting handler gets its answers and runs to its end.\<close>

definition handler_resumes ::
  "nat \<Rightarrow> int \<Rightarrow> bool \<Rightarrow> state_response \<Rightarrow> dc_state \<Rightarrow> dc_state" where
  "handler_resumes i now serverIsOnline resp s =
     (if i < length (awaiting s) then
        userStatusFetchHandler (awaiting s ! i) now serverIsOnline resp
          (s\<lparr>awaiting := take i (awaiting s) @ drop (Suc i) (awaiting s)\<rparr>)
      else s)"

text \<open>\<^verbatim>\<open>handleKpmClickedEvent\<close>, with the answers to its awaits.\<close>

definition handleKpmClickedEvent ::
  "int \<Rightarrow> bool \<Rightarrow> state_response \<Rightarrow> dc_state \<Rightarrow> dc_state" where
  "handleKpmClickedEvent now serverIsOnline resp s =
     (let s0 = s\<lparr>dc_effects := dc_effects s @ [ServerIsAvailable]\<rparr> in
      case getUserStatus now serverIsOnline False resp s0 of
        (s1, userStatus) \<Rightarrow>
          (let s2 = s1\<lparr>dc_effects := dc_effects s1 @ [BuildWebDashboardUrl]\<rparr>;
               s3 = (if \<not> loggedIn userStatus
                     then refetchUserStatusLazily 40
                            (s2\<lparr>dc_effects := dc_effects s2 @ [BuildLoginUrl]\<rparr>)
                     else s2)
           in s3\<lparr>dc_effects := dc_effects s3 @ [LaunchWebUrl]\<rparr>))"

text \<open>
  What can happen to the controller, one event at a time: a call of
  \<open>refetchUserStatusLazily\<close> from outside, a click, a timer that fires, a waiting handler
  that resumes, a call of \<open>clearCachedLoggedInState\<close>, a call of \<open>getUserStatus\<close> that
  runs to its end.
\<close>

datatype event =
    Refetch nat
  | Asked int bool bool state_response
  | Clicked int bool state_response
  | Fires
  | Resumes nat int bool state_response
  | Cleared

fun step :: "dc_state \<Rightarrow> event \<Rightarrow> dc_state" where
  "step s (Refetch n) = refetchUserStatusLazily n s"
| "step s (Asked now online ignoreCache resp) = fst (getUserStatus now online ignoreCache resp s)"
| "step s (Clicked now online resp) = handleKpmClickedEvent now online resp s"
| "step s Fires = timer_fires s"
| "step s (Resumes i now online resp) = handler_resumes i now online resp s"
| "step s Cleared = clearCachedLoggedInState s"

text \<open>
  A campaign left to itself: as long as a timer is scheduled it fires and its handler runs
  to its end, with the next of the given answers.
\<close>

fun run_campaign :: "(int \<times> bool \<times> state_response) list \<Rightarrow> dc_state \<Rightarrow> dc_state" where
  "run_campaign [] s = s"
| "run_campaign ((now, serverIsOnline, resp) # outcomes) s =
     (if timers s = [] then s
      else run_campaign outcomes (handler_resumes 0 now serverIsOnline resp (timer_fires s)))"

subsection \<open>Vocabulary of the properties\<close>

text \<open>The network checks of the login state made so far.\<close>

definition is_state_check :: "effect \<Rightarrow> bool" where
  "is_state_check c =
     (case c of SoftwareGet api jwt \<Rightarrow> api = ''/users/plugin/state'' | _ \<Rightarrow> False)"

definition checks :: "dc_state \<Rightarrow> nat" where
  "checks s = length (filter is_state_check (dc_effects s))"

text \<open>The backend says that the user is logged in.\<close>

definition confirms_login :: "state_response \<Rightarrow> bool" where
  "confirms_login resp =
     (state_ok resp
      \<and> (case state_data resp of
            None \<Rightarrow> False
          | Some d \<Rightarrow> data_state d = Some (JStr ''OK'')))"

text \<open>
  How often the handler has been started (each start asks \<^verbatim>\<open>serverIsAvailable()\<close> once),
  and how often the fallback \<^verbatim>\<open>setItem("check_status", true)\<close> has been taken.
\<close>

definition handler_runs :: "dc_state \<Rightarrow> nat" where
  "handler_runs s = count_list (dc_effects s) ServerIsAvailable"

definition fallbacks :: "dc_state \<Rightarrow> nat" where
  "fallbacks s = count_list (dc_effects s) (SetItem ''check_status'' (Some (JBool True)))"

definition idle :: "dc_state \<Rightarrow> bool" where
  "idle s = (timers s = [] \<and> \<not> userFetchTimeout s \<and> awaiting s = [])"

text \<open>At most one callback is scheduled, and \<open>userFetchTimeout\<close> is set exactly then.\<close>

definition one_timer :: "dc_state \<Rightarrow> bool" where
  "one_timer s = (length (timers s) \<le> 1 \<and> (userFetchTimeout s = (timers s \<noteq> [])))"

text \<open>States and answers of the concrete runs.\<close>

definition dc_initial :: dc_state where
  "dc_initial =
     \<lparr>connectState = None, lastLoggedInCheckTime = None, userFetchTimeout = False,
      timers = [], awaiting = [],
      session = (\<lambda>k. None)(''jwt'' := Some (JStr ''JWT t'')), dc_effects = []\<rparr>"

definition logged_in_response :: state_response where
  "logged_in_response =
     \<lparr>state_ok = True,
      state_data = Some \<lparr>data_state = Some (JStr ''OK''), data_email = Some (JStr ''a@b.c''),
                         data_jwt = Some (JStr ''JWT t'')\<rparr>\<rparr>"

definition anonymous_response :: state_response where
  "anonymous_response =
     \<lparr>state_ok = True,
      state_data = Some \<lparr>data_state = Some (JStr ''ANONYMOUS''), data_email = None,
                         data_jwt = None\<rparr>\<rparr>"

section \<open>Onboarding\<close>

text \<open>
  What one call of \<^verbatim>\<open>onboardInit\<close> finds: the stored jwt (the session file is shared with
  the other windows, which may write it), whether the window is focused, what
  \<^verbatim>\<open>jwt_decode\<close> makes of the token (it may throw; otherwise the \<open>id\<close> it holds, if any),
  and the answers of \<^verbatim>\<open>serverIsAvailable()\<close> and \<^verbatim>\<open>createAnonymousUser()\<close> where they are
  awaited.
\<close>

datatype decode_result = Decode_throws | Decoded "int option"

record onboard_env =
  stored_jwt :: "json option"
  focused :: bool
  decoded :: decode_result
  server_online :: bool
  anon_jwt :: "json option"

datatype onboard_timer = Primary_retry | Secondary_retry

datatype onboard_error = InvalidTokenError

text \<open>
  The module variable \<open>retry_counter\<close>, the callbacks scheduled by \<^verbatim>\<open>setTimeout\<close> and not
  yet run, and the calls made so far.
\<close>

record onboard_state =
  retry_counter :: nat
  pending :: "onboard_timer list"
  onboard_effects :: "effect list"

definition primaryWindowOnboarding :: "onboard_env \<Rightarrow> onboard_state \<Rightarrow> onboard_state" where
  "primaryWindowOnboarding env s =
     (let s0 = s\<lparr>onboard_effects := onboard_effects s @ [ServerIsAvailable]\<rparr>;
          s1 = (if server_online env
                then s0\<lparr>onboard_effects := onboard_effects s0 @ [CreateAnonymousUser]\<rparr>
                else s0)
      in if server_online env \<and> truthy_item (anon_jwt env) then
           s1\<lparr>onboard_effects := onboard_effects s1 @ [Callback True]\<rparr>
         else
           (let s2 = (if retry_counter s1 = 0
                      then s1\<lparr>onboard_effects := onboard_effects s1 @ [ShowOfflinePrompt]\<rparr>
                      else s1)
            in s2\<lparr>pending := pending s2 @ [Primary_retry]\<rparr>))"

definition secondaryWindowOnboarding :: "onboard_env \<Rightarrow> onboard_state \<Rightarrow> onboard_state" where
  "secondaryWindowOnboarding env s =
     (let s0 = s\<lparr>onboard_effects := onboard_effects s @ [ServerIsAvailable]\<rparr>
      in if \<not> server_online env then s0\<lparr>pending := pending s0 @ [Secondary_retry]\<rparr>
         else if retry_counter s0 < 5 then
           s0\<lparr>retry_counter := retry_counter s0 + 1,
              pending := pending s0 @ [Secondary_retry]\<rparr>
         else s0\<lparr>onboard_effects := onboard_effects s0 @ [CreateAnonymousUser, Callback True]\<rparr>)"

text \<open>
  \<^verbatim>\<open>onboardInit\<close>. An exception of \<^verbatim>\<open>jwt_decode\<close> leaves the function: the state is as it
  was and the error is the second component.
\<close>

definition onboardInit ::
  "onboard_env \<Rightarrow> onboard_state \<Rightarrow> onboard_state \<times> onboard_error option" where
  "onboardInit env s =
     (if truthy_item (stored_jwt env) \<and> focused env then
        (case decoded env of
           Decode_throws \<Rightarrow> (s, Some InvalidTokenError)
         | Decoded ident \<Rightarrow>
             if (case ident of None \<Rightarrow> False | Some n \<Rightarrow> n > 9999999999) then
               (primaryWindowOnboarding env
                  (s\<lparr>onboard_effects := onboard_effects s @ [SetItem ''jwt'' None]\<rparr>),
                None)
             else (s\<lparr>onboard_effects := onboard_effects s @ [Callback False]\<rparr>, None))
      else if truthy_item (stored_jwt env) then
        (s\<lparr>onboard_effects := onboard_effects s @ [Callback False]\<rparr>, None)
      else if focused env then (primaryWindowOnboarding env s, None)
      else (secondaryWindowOnboarding env s, None))"

text \<open>
  The first scheduled callback runs: the one of the primary window counts a retry before
  it calls \<^verbatim>\<open>onboardInit\<close>, the one of a secondary window calls it as it is.
\<close>

definition onboard_timer_fires ::
  "onboard_env \<Rightarrow> onboard_state \<Rightarrow> onboard_state \<times> onboard_error option" where
  "onboard_timer_fires env s =
     (case pending s of
        [] \<Rightarrow> (s, None)
      | t # rest \<Rightarrow>
          onboardInit env
            (case t of
               Primary_retry \<Rightarrow> s\<lparr>pending := rest, retry_counter := retry_counter s + 1\<rparr>
             | Secondary_retry \<Rightarrow> s\<lparr>pending := rest\<rparr>))"

text \<open>
  Onboarding left to itself: as long as a callback is scheduled it runs, in the next of
  the given surroundings. An exception thrown in a callback ends that callback only.
\<close>

fun onboard_run :: "onboard_env list \<Rightarrow> onboard_state \<Rightarrow> onboard_state" where
  "onboard_run [] s = s"
| "onboard_run (env # envs) s =
     (if pending s = [] then s else onboard_run envs (fst (onboard_timer_fires env s)))"

subsection \<open>Vocabulary of the properties\<close>

text \<open>A secondary window that finds no jwt and the server within reach.\<close>

definition waiting_online :: "onboard_env \<Rightarrow> bool" where
  "waiting_online env =
     (\<not> truthy_item (stored_jwt env) \<and> \<not> focused env \<and> server_online env)"

text \<open>A secondary window that finds no jwt, whether the server is within reach or not.\<close>

definition waiting :: "onboard_env \<Rightarrow> bool" where
  "waiting env = (\<not> truthy_item (stored_jwt env) \<and> \<not> focused env)"

text \<open>How many of the calls find the server within reach.\<close>

definition online_calls :: "onboard_env list \<Rightarrow> nat" where
  "online_calls envs = length (filter server_online envs)"

definition onboard_attempts :: "onboard_state \<Rightarrow> nat" where
  "onboard_attempts s = count_list (onboard_effects s) ServerIsAvailable"

definition anonymous_users :: "onboard_state \<Rightarrow> nat" where
  "anonymous_users s = count_list (onboard_effects s) CreateAnonymousUser"

text \<open>States and surroundings of the concrete runs.\<close>

definition onboard_initial :: onboard_state where
  "onboard_initial = \<lparr>retry_counter = 0, pending = [], onboard_effects = []\<rparr>"

definition secondary_env :: "bool \<Rightarrow> onboard_env" where
  "secondary_env online =
     \<lparr>stored_jwt = None, focused = False, decoded = Decoded None, server_online = online,
      anon_jwt = Some (JStr ''JWT 1'')\<rparr>"

section \<open>Properties\<close>

subsection \<open>The bound of the parser is never exhausted\<close>

lemma skip_ws_length: "length (skip_ws s) \<le> length s"
  by (simp add: skip_ws_def length_dropWhile_le)

lemma skip_ws_Cons: "skip_ws s = c # r \<Longrightarrow> length r < length s"
  using skip_ws_length [of s] by simp

lemma lex_string_shorter: "lex_string s = Some (str, rest) \<Longrightarrow> length rest < length s"
proof (induction s arbitrary: str rule: lex_string.induct)
  case 1
  then show ?case by simp
next
  case (2 c cs)
  then show ?case
    by (fastforce split: if_splits list.splits option.splits)
qed

lemma lex_exponent_shorter: "lex_exponent s = Some (e, rest) \<Longrightarrow> length rest \<le> length s"
  by (auto simp: lex_exponent_def Let_def length_dropWhile_le le_SucI
      intro: order_trans [OF length_dropWhile_le]
      split: if_splits)


lemma lex_number_shorter: "lex_number s = Some (v, rest) \<Longrightarrow> length rest < length s"
proof -
  assume a: "lex_number s = Some (v, rest)"
  define neg where "neg = (s \<noteq> [] \<and> hd s = CHR ''-'')"
  define s1 where "s1 = (if neg then tl s else s)"
  define ip where "ip = takeWhile is_digit s1"
  define s2 where "s2 = dropWhile is_digit s1"
  define dot where "dot = (s2 \<noteq> [] \<and> hd s2 = CHR ''.'')"
  define s3 where "s3 = (if dot then dropWhile is_digit (tl s2) else s2)"
  from a have ip: "ip \<noteq> []"
    by (auto simp: lex_number_def Let_def neg_def s1_def ip_def split: if_splits)
  from a obtain ex where ex: "lex_exponent s3 = Some (ex, rest)"
    by (auto simp: lex_number_def Let_def neg_def s1_def ip_def s2_def dot_def s3_def
        split: if_splits option.splits)
  have "length s1 = length ip + length s2"
    unfolding ip_def s2_def
    by (metis length_append takeWhile_dropWhile_id)
  with ip have "length s2 < length s1" by (cases ip) auto
  moreover have "length s1 \<le> length s" by (simp add: s1_def)
  moreover have "length s3 \<le> length s2"
    unfolding s3_def
    by (auto intro: order_trans [OF length_dropWhile_le])
  moreover have "length rest \<le> length s3" using ex by (rule lex_exponent_shorter)
  ultimately show ?thesis by simp
qed

lemma strip_prefix_shorter: "strip_prefix p s = Some rest \<Longrightarrow> length rest \<le> length s"
  by (auto simp: strip_prefix_def split: if_splits)

lemma parse_value_Suc:
  assumes "skip_ws s = c # r0"
  shows "parse_value (Suc k) s =
          (if c = CHR ''n'' then map_option (Pair JNull) (strip_prefix ''ull'' r0)
          else if c = CHR ''t'' then map_option (Pair (JBool True)) (strip_prefix ''rue'' r0)
          else if c = CHR ''f'' then map_option (Pair (JBool False)) (strip_prefix ''alse'' r0)
          else if c = CHR 0x22 then
            (case lex_string r0 of
               None \<Rightarrow> None
             | Some (str, rest) \<Rightarrow> Some (JStr str, rest))
          else if c = CHR ''['' then
            (case skip_ws r0 of
               [] \<Rightarrow> None
             | d # r' \<Rightarrow> if d = CHR '']'' then Some (JArr [], r') else parse_elements k [] r0)
          else if c = CHR ''{'' then
            (case skip_ws r0 of
               [] \<Rightarrow> None
             | d # r' \<Rightarrow> if d = CHR ''}'' then Some (JObj [], r') else parse_members k [] r0)
          else lex_number (c # r0))"
  using assms by simp

lemma good_value_Suc:
  assumes ge: "good_elements k" and gm: "good_members k"
  shows "good_value (Suc k)"
  unfolding good_value_def
proof (intro allI impI)
  fix s v r
  assume p: "parse_value (Suc k) s = Some (v, r)"
  then obtain c r0 where sk: "skip_ws s = c # r0"
    by (cases "skip_ws s") auto
  have len0: "length r0 < length s" using sk by (rule skip_ws_Cons)
  note eq = parse_value_Suc [OF sk]
  consider (n) "c = CHR ''n''" | (t) "c = CHR ''t''" | (f) "c = CHR ''f''"
    | (q) "c = CHR 0x22" | (a) "c = CHR ''[''" | (b) "c = CHR ''{''"
    | (other) "c \<noteq> CHR ''n''" "c \<noteq> CHR ''t''" "c \<noteq> CHR ''f''" "c \<noteq> CHR 0x22"
        "c \<noteq> CHR ''[''" "c \<noteq> CHR ''{''"
    by blast
  then have "length r < length s \<and> (\<forall>j. parse_value (Suc j) s = Some (v, r)
       \<or> (length r0 - length r \<le> j \<longrightarrow> parse_value (Suc j) s = Some (v, r)))"
  proof cases
    case n
    with p eq have "strip_prefix ''ull'' r0 = Some r" "v = JNull" by auto
    then show ?thesis using n eq strip_prefix_shorter [of "''ull''" r0 r] len0 by auto
  next
    case t
    with p eq have "strip_prefix ''rue'' r0 = Some r" "v = JBool True" by auto
    then show ?thesis using t eq strip_prefix_shorter [of "''rue''" r0 r] len0 by auto
  next
    case f
    with p eq have "strip_prefix ''alse'' r0 = Some r" "v = JBool False" by auto
    then show ?thesis using f eq strip_prefix_shorter [of "''alse''" r0 r] len0 by auto
  next
    case q
    with p eq obtain str where "lex_string r0 = Some (str, r)" "v = JStr str"
      by (auto split: option.splits)
    then show ?thesis using q eq lex_string_shorter [of r0 str r] len0 by auto
  next
    case a
    with p eq obtain d r' where d: "skip_ws r0 = d # r'"
      by (cases "skip_ws r0") auto
    show ?thesis
    proof (cases "d = CHR '']''")
      case True
      with p eq a d have "r = r'" "v = JArr []" by auto
      then show ?thesis using a eq d True skip_ws_Cons [OF d] len0 by auto
    next
      case False
      with p eq a d have e: "parse_elements k [] r0 = Some (v, r)" by auto
      with ge have "length r < length r0"
        "\<forall>j. length r0 - length r \<le> j \<longrightarrow> parse_elements j [] r0 = Some (v, r)"
        unfolding good_elements_def by blast+
      then show ?thesis using a eq d False len0 by auto
    qed
  next
    case b
    with p eq obtain d r' where d: "skip_ws r0 = d # r'"
      by (cases "skip_ws r0") auto
    show ?thesis
    proof (cases "d = CHR ''}''")
      case True
      with p eq b d have "r = r'" "v = JObj []" by auto
      then show ?thesis using b eq d True skip_ws_Cons [OF d] len0 by auto
    next
      case False
      with p eq b d have e: "parse_members k [] r0 = Some (v, r)" by auto
      with gm have "length r < length r0"
        "\<forall>j. length r0 - length r \<le> j \<longrightarrow> parse_members j [] r0 = Some (v, r)"
        unfolding good_members_def by blast+
      then show ?thesis using b eq d False len0 by auto
    qed
  next
    case other
    with p eq have num: "lex_number (c # r0) = Some (v, r)" by auto
    have "length (c # r0) \<le> length s"
      using skip_ws_length [of s] sk by simp
    with lex_number_shorter [OF num] have "length r < length s" by simp
    then show ?thesis using other eq num by auto
  qed
  then have short: "length r < length s"
    and enough: "\<And>j. length r0 - length r \<le> j \<Longrightarrow> parse_value (Suc j) s = Some (v, r)"
    by blast+
  show "length r < length s
      \<and> (\<forall>j. length s - length r \<le> j \<longrightarrow> parse_value j s = Some (v, r))"
  proof (intro conjI allI impI)
    show "length r < length s" by (rule short)
  next
    fix j
    assume j: "length s - length r \<le> j"
    with short obtain j' where j': "j = Suc j'" by (cases j) auto
    with j len0 have "length r0 - length r \<le> j'" by simp
    then show "parse_value j s = Some (v, r)" using enough j' by simp
  qed
qed


lemma good_elements_Suc:
  assumes gv: "good_value k" and ge: "good_elements k"
  shows "good_elements (Suc k)"
  unfolding good_elements_def
proof (intro allI impI)
  fix acc s v r
  assume p: "parse_elements (Suc k) acc s = Some (v, r)"
  then obtain v1 rest where pv: "parse_value k s = Some (v1, rest)"
    by (cases "parse_value k s") auto
  with gv have rest: "length rest < length s"
    and again: "\<And>j. length s - length rest \<le> j \<Longrightarrow> parse_value j s = Some (v1, rest)"
    unfolding good_value_def by blast+
  from p pv obtain d r' where d: "skip_ws rest = d # r'"
    by (cases "skip_ws rest") auto
  have r': "length r' < length rest" using d by (rule skip_ws_Cons)
  have "length r < length s
      \<and> (\<forall>j. length r' - length r \<le> j \<longrightarrow>
            (if d = CHR '','' then parse_elements j (acc @ [v1]) r'
             else if d = CHR '']'' then Some (JArr (acc @ [v1]), r')
             else None) = Some (v, r))
      \<and> length r \<le> length r'"
  proof (cases "d = CHR '',''")
    case True
    with p pv d have "parse_elements k (acc @ [v1]) r' = Some (v, r)" by simp
    with ge have "length r < length r'"
      "\<forall>j. length r' - length r \<le> j \<longrightarrow> parse_elements j (acc @ [v1]) r' = Some (v, r)"
      unfolding good_elements_def by blast+
    then show ?thesis using True r' rest by simp
  next
    case False
    with p pv d have "d = CHR '']''" "r = r'" "v = JArr (acc @ [v1])"
      by (auto split: if_splits)
    then show ?thesis using r' rest by simp
  qed
  then have short: "length r < length s" and le: "length r \<le> length r'"
    and tail: "\<And>j. length r' - length r \<le> j \<Longrightarrow>
            (if d = CHR '','' then parse_elements j (acc @ [v1]) r'
             else if d = CHR '']'' then Some (JArr (acc @ [v1]), r')
             else None) = Some (v, r)"
    by blast+
  show "length r < length s
      \<and> (\<forall>j. length s - length r \<le> j \<longrightarrow> parse_elements j acc s = Some (v, r))"
  proof (intro conjI allI impI)
    show "length r < length s" by (rule short)
  next
    fix j
    assume j: "length s - length r \<le> j"
    with short obtain j' where j': "j = Suc j'" by (cases j) auto
    from j j' rest r' le have "length s - length rest \<le> j'" "length r' - length r \<le> j'"
      by simp_all
    with again tail have "parse_value j' s = Some (v1, rest)"
      "(if d = CHR '','' then parse_elements j' (acc @ [v1]) r'
             else if d = CHR '']'' then Some (JArr (acc @ [v1]), r')
             else None) = Some (v, r)"
      by blast+
    then show "parse_elements j acc s = Some (v, r)" using j' d by simp
  qed
qed

lemma good_members_Suc:
  assumes gv: "good_value k" and gm: "good_members k"
  shows "good_members (Suc k)"
  unfolding good_members_def
proof (intro allI impI)
  fix acc s v r
  assume p: "parse_members (Suc k) acc s = Some (v, r)"
  then obtain q r0 where q: "skip_ws s = q # r0"
    by (cases "skip_ws s") auto
  have r0: "length r0 < length s" using q by (rule skip_ws_Cons)
  from p q have quote: "q = CHR 0x22"
    by (auto split: if_splits)
  with p q obtain key r1 where key: "lex_string r0 = Some (key, r1)"
    by (cases "lex_string r0") auto
  have r1: "length r1 < length r0" using key by (rule lex_string_shorter)
  from p q quote key obtain colon r2 where colon: "skip_ws r1 = colon # r2"
    by (cases "skip_ws r1") auto
  have r2: "length r2 < length r1" using colon by (rule skip_ws_Cons)
  from p q quote key colon have is_colon: "colon = CHR '':''"
    by (auto split: if_splits)
  with p q quote key colon obtain v1 rest where pv: "parse_value k r2 = Some (v1, rest)"
    by (cases "parse_value k r2") auto
  with gv have rest: "length rest < length r2"
    and again: "\<And>j. length r2 - length rest \<le> j \<Longrightarrow> parse_value j r2 = Some (v1, rest)"
    unfolding good_value_def by blast+
  from p q quote key colon is_colon pv obtain d r' where d: "skip_ws rest = d # r'"
    by (cases "skip_ws rest") auto
  have r': "length r' < length rest" using d by (rule skip_ws_Cons)
  have "(\<forall>j. length r' - length r \<le> j \<longrightarrow>
            (if d = CHR '','' then parse_members j (acc @ [(key, v1)]) r'
             else if d = CHR ''}'' then Some (JObj (acc @ [(key, v1)]), r')
             else None) = Some (v, r))
      \<and> length r \<le> length r'"
  proof (cases "d = CHR '',''")
    case True
    with p q quote key colon is_colon pv d
    have "parse_members k (acc @ [(key, v1)]) r' = Some (v, r)" by simp
    with gm have "length r < length r'"
      "\<forall>j. length r' - length r \<le> j \<longrightarrow> parse_members j (acc @ [(key, v1)]) r' = Some (v, r)"
      unfolding good_members_def by blast+
    then show ?thesis using True by simp
  next
    case False
    with p q quote key colon is_colon pv d
    have "d = CHR ''}''" "r = r'" "v = JObj (acc @ [(key, v1)])"
      by (auto split: if_splits)
    then show ?thesis by simp
  qed
  then have le: "length r \<le> length r'"
    and tail: "\<And>j. length r' - length r \<le> j \<Longrightarrow>
            (if d = CHR '','' then parse_members j (acc @ [(key, v1)]) r'
             else if d = CHR ''}'' then Some (JObj (acc @ [(key, v1)]), r')
             else None) = Some (v, r)"
    by blast+
  have short: "length r < length s"
    using le r' rest r2 r1 r0 by simp
  show "length r < length s
      \<and> (\<forall>j. length s - length r \<le> j \<longrightarrow> parse_members j acc s = Some (v, r))"
  proof (intro conjI allI impI)
    show "length r < length s" by (rule short)
  next
    fix j
    assume j: "length s - length r \<le> j"
    with short obtain j' where j': "j = Suc j'" by (cases j) auto
    from j j' le r' rest r2 r1 r0
    have "length r2 - length rest \<le> j'" "length r' - length r \<le> j'"
      by simp_all
    with again tail have "parse_value j' r2 = Some (v1, rest)"
      "(if d = CHR '','' then parse_members j' (acc @ [(key, v1)]) r'
             else if d = CHR ''}'' then Some (JObj (acc @ [(key, v1)]), r')
             else None) = Some (v, r)"
      by blast+
    then show "parse_members j acc s = Some (v, r)"
      using j' q quote key colon is_colon d by simp
  qed
qed

lemma parsers_good: "good_value k \<and> good_elements k \<and> good_members k"
proof (induction k)
  case 0
  then show ?case by (simp add: good_value_def good_elements_def good_members_def)
next
  case (Suc k)
  then show ?case
    by (simp add: good_value_Suc good_elements_Suc good_members_Suc)
qed

lemma parse_value_fuel:
  assumes "parse_value k s = Some (v, r)"
  shows "parse_value (Suc (length s)) s = Some (v, r)"
proof -
  from parsers_good [of k] assms
  have enough: "\<forall>j. length s - length r \<le> j \<longrightarrow> parse_value j s = Some (v, r)"
    unfolding good_value_def by blast
  have "length s - length r \<le> Suc (length s)" by simp
  with enough show ?thesis by blast
qed

lemma JSON_parse_complete:
  assumes "parse_value k s = Some (v, r)" and "skip_ws r = []"
  shows "JSON_parse s = Some v"
  using parse_value_fuel [OF assms(1)] assms(2) by (simp add: JSON_parse_def)

subsection \<open>Paused telemetry\<close>

text \<open>
  C10. While telemetry is paused (\<open>TELEMETRY_ON\<close> is false), \<open>sendOfflineData\<close> returns at
  once: it leaves no request pending and the state, with the store file and the list of
  effects, is the one it was given; and \<open>isAuthenticated\<close> answers true with the state
  unchanged, so without a call to the backend, whatever token is stored and whatever the
  backend would have answered.
\<close>

theorem paused_telemetry_short_circuits:
  assumes "\<not> TELEMETRY_ON s"
  shows "sendOfflineData parse s = (s, None)
         \<and> isAuthenticated ping s = (s, True)"
  using assms by (simp add: sendOfflineData_def isAuthenticated_def)

theorem paused_telemetry_short_circuits_witness:
  \<open>\<not> TELEMETRY_ON (handlePauseMetricsEvent (example_state (Content ''{"a":1}'')))
   \<and> sendOfflineData JSON_parse (handlePauseMetricsEvent (example_state (Content ''{"a":1}'')))
     = (handlePauseMetricsEvent (example_state (Content ''{"a":1}'')), None)
   \<and> isAuthenticated rejected (handlePauseMetricsEvent (example_state (Content ''{"a":1}'')))
     = (handlePauseMetricsEvent (example_state (Content ''{"a":1}'')), True)\<close>
proof -
  have paused:
    \<open>\<not> TELEMETRY_ON (handlePauseMetricsEvent (example_state (Content ''{"a":1}'')))\<close>
    by (simp add: handlePauseMetricsEvent_def)
  from paused_telemetry_short_circuits [OF paused, of JSON_parse rejected] paused
  show ?thesis by simp
qed

subsection \<open>Lines and batches\<close>

lemma split_lines_no_sep: "line_text l \<Longrightarrow> split_lines l = [l]"
  by (induction l) (auto simp: line_text_def)

lemma split_lines_LF:
  "line_text l \<Longrightarrow> split_lines (l @ CHR 0x0A # rest) = l # split_lines rest"
  by (induction l) (auto simp: line_text_def)

lemma split_lines_CRLF:
  "line_text l \<Longrightarrow> split_lines (l @ CHR 0x0D # CHR 0x0A # rest) = l # split_lines rest"
  by (induction l) (auto simp: line_text_def)

lemma split_lines_eol:
  assumes "line_text l" and "eol = [CHR 0x0A] \<or> eol = [CHR 0x0D, CHR 0x0A]"
  shows "split_lines (l @ eol @ rest) = l # split_lines rest"
  using assms by (auto simp: split_lines_LF split_lines_CRLF)

lemma split_join_lines:
  "\<forall>l\<in>set ls. line_text l \<Longrightarrow> ls \<noteq> [] \<Longrightarrow> split_lines (join_lines ls) = ls"
  by (induction ls rule: join_lines.induct) (auto simp: split_lines_no_sep split_lines_LF)

lemma filter_truthy_map_parse_item:
  "filter_truthy (map (parse_item parse) ls) = List.map_filter (parse_item parse) ls"
  by (induction ls)
     (auto simp: filter_truthy_def List.map_filter_simps parse_item_def Let_def truthy_item_def)

lemma map_filter_parse_item:
  "List.map_filter (parse_item parse) ls = concat (map (kept parse) ls)"
  by (induction ls)
     (auto simp: List.map_filter_simps parse_item_def kept_def split: option.splits)

lemma payloads_of_Nil: "payloads_of parse [] = []"
  by (simp add: payloads_of_def filter_truthy_def List.map_filter_simps parse_item_def
      truthy_item_def)

lemma payloads_of_join_lines:
  assumes "\<forall>l\<in>set ls. line_text l"
  shows "payloads_of parse (join_lines ls) = concat (map (kept parse) ls)"
proof (cases "ls = []")
  case True
  then show ?thesis by (simp add: payloads_of_Nil)
next
  case False
  with assms have "split_lines (join_lines ls) = ls"
    by (simp add: split_join_lines)
  then show ?thesis
    by (simp only: payloads_of_def filter_truthy_map_parse_item map_filter_parse_item)
qed

lemma payloads_of_line:
  assumes "line_text l" and "eol = [CHR 0x0A] \<or> eol = [CHR 0x0D, CHR 0x0A]"
  shows "payloads_of parse (l @ eol @ rest) = kept parse l @ payloads_of parse rest"
proof -
  have "split_lines (l @ eol @ rest) = l # split_lines rest"
    using assms by (rule split_lines_eol)
  then show ?thesis
    by (simp only: payloads_of_def filter_truthy_map_parse_item map_filter_parse_item)
       simp
qed

lemma payloads_of_serialised:
  assumes "eol = [CHR 0x0A] \<or> eol = [CHR 0x0D, CHR 0x0A]"
    and "\<forall>r\<in>set rs. stringify r \<noteq> [] \<and> line_text (stringify r)
            \<and> parse (stringify r) = Some r \<and> truthy r"
  shows "payloads_of parse (concat (map (\<lambda>r. stringify r @ eol) rs) @ rest)
         = rs @ payloads_of parse rest"
  using assms(2)
proof (induction rs)
  case Nil
  then show ?case by simp
next
  case (Cons r rs)
  have "payloads_of parse
          (stringify r @ eol @ (concat (map (\<lambda>r. stringify r @ eol) rs) @ rest))
        = kept parse (stringify r)
          @ payloads_of parse (concat (map (\<lambda>r. stringify r @ eol) rs) @ rest)"
    using Cons.prems assms(1) by (intro payloads_of_line) auto
  moreover have "kept parse (stringify r) = [r]"
    using Cons.prems by (simp add: kept_def)
  ultimately show ?case using Cons by simp
qed

lemma example_payloads:
  \<open>payloads_of JSON_parse (join_lines [''{"a":1}'', ''not-json'', ''{"b":2}''])
     = [JObj [(''a'', JNum 1 0)], JObj [(''b'', JNum 2 0)]]\<close>
  by code_simp

text \<open>
  C4. The batch read from a store file whose lines are \<open>{"a":1}\<close>, \<open>not-json\<close>, \<open>{"b":2}\<close> is
  exactly the two objects, in that order. For every parser and every list of lines, the
  batch is the concatenation, in the order of the lines, of what each line contributes on
  its own (\<open>kept\<close>): a line that does not parse contributes nothing and takes nothing away
  from the lines after it. In particular, when every line either fails to parse or is the
  non-empty text of an object, the batch is the list of the parsed lines.
\<close>

theorem readAll_skips_malformed_keeps_valid:
  assumes "\<forall>l\<in>set ls. line_text l"
  shows \<open>payloads_of JSON_parse (join_lines [''{"a":1}'', ''not-json'', ''{"b":2}''])
           = [JObj [(''a'', JNum 1 0)], JObj [(''b'', JNum 2 0)]]
         \<and> payloads_of parse (join_lines ls) = concat (map (kept parse) ls)
         \<and> ((\<forall>l\<in>set ls. parse l = None \<or> (l \<noteq> [] \<and> (\<exists>ms. parse l = Some (JObj ms))))
              \<longrightarrow> payloads_of parse (join_lines ls) = List.map_filter parse ls)\<close>
proof (intro conjI impI)
  show \<open>payloads_of JSON_parse (join_lines [''{"a":1}'', ''not-json'', ''{"b":2}''])
           = [JObj [(''a'', JNum 1 0)], JObj [(''b'', JNum 2 0)]]\<close>
    by (rule example_payloads)
next
  show batch: "payloads_of parse (join_lines ls) = concat (map (kept parse) ls)"
    using assms by (rule payloads_of_join_lines)
  assume "\<forall>l\<in>set ls. parse l = None \<or> (l \<noteq> [] \<and> (\<exists>ms. parse l = Some (JObj ms)))"
  then have "concat (map (kept parse) ls) = List.map_filter parse ls"
    by (induction ls) (auto simp: kept_def List.map_filter_simps)
  with batch show "payloads_of parse (join_lines ls) = List.map_filter parse ls"
    by simp
qed

theorem readAll_skips_malformed_keeps_valid_witness:
  \<open>line_text ''{"c":[1,2]}'' \<and> line_text ''{oops'' \<and> line_text ''0'' \<and> line_text ''{}''
   \<and> payloads_of JSON_parse (join_lines [''{"c":[1,2]}'', ''{oops'', ''0'', ''{}''])
       = [JObj [(''c'', JArr [JNum 1 0, JNum 2 0])], JObj []]
   \<and> JSON_parse ''{"c":[1,2]}'' = Some (JObj [(''c'', JArr [JNum 1 0, JNum 2 0])])
   \<and> JSON_parse ''{oops'' = None
   \<and> JSON_parse ''{}'' = Some (JObj [])
   \<and> payloads_of JSON_parse (join_lines [''{"c":[1,2]}'', ''{oops'', ''{}''])
       = List.map_filter JSON_parse [''{"c":[1,2]}'', ''{oops'', ''{}'']\<close>
proof -
  have lines: \<open>\<forall>l\<in>set [''{"c":[1,2]}'', ''{oops'', ''0'', ''{}'']. line_text l\<close>
    and lines': \<open>\<forall>l\<in>set [''{"c":[1,2]}'', ''{oops'', ''{}'']. line_text l\<close>
    by (simp_all add: line_text_def)
  have batch: \<open>concat (map (kept JSON_parse) [''{"c":[1,2]}'', ''{oops'', ''0'', ''{}''])
       = [JObj [(''c'', JArr [JNum 1 0, JNum 2 0])], JObj []]\<close>
    by code_simp
  have c: \<open>JSON_parse ''{"c":[1,2]}'' = Some (JObj [(''c'', JArr [JNum 1 0, JNum 2 0])])\<close>
    and bad: \<open>JSON_parse ''{oops'' = None\<close>
    and e: \<open>JSON_parse ''{}'' = Some (JObj [])\<close>
    by code_simp+
  have records: \<open>\<forall>l\<in>set [''{"c":[1,2]}'', ''{oops'', ''{}''].
                   JSON_parse l = None \<or> (l \<noteq> [] \<and> (\<exists>ms. JSON_parse l = Some (JObj ms)))\<close>
    using c bad e by simp
  note kept_lines = readAll_skips_malformed_keeps_valid [OF lines, of JSON_parse]
  note record_lines = readAll_skips_malformed_keeps_valid [OF lines', of JSON_parse]
  from kept_lines batch
  have first: \<open>payloads_of JSON_parse (join_lines [''{"c":[1,2]}'', ''{oops'', ''0'', ''{}''])
       = [JObj [(''c'', JArr [JNum 1 0, JNum 2 0])], JObj []]\<close>
    by (simp only:)
  from record_lines records
  have second: \<open>payloads_of JSON_parse (join_lines [''{"c":[1,2]}'', ''{oops'', ''{}''])
       = List.map_filter JSON_parse [''{"c":[1,2]}'', ''{oops'', ''{}'']\<close>
    by blast
  have texts: \<open>line_text ''{"c":[1,2]}''\<close> \<open>line_text ''{oops''\<close> \<open>line_text ''0''\<close>
    \<open>line_text ''{}''\<close>
    by (simp_all add: line_text_def)
  from texts first c bad e second show ?thesis by blast
qed

subsection \<open>The flush\<close>

lemma sendOfflineData_posts:
  assumes "TELEMETRY_ON s" and "dataStoreFile s = Content content" and "content \<noteq> []"
  shows "sendOfflineData parse s =
           (s\<lparr>effects := effects s
                 @ [SoftwarePost ''/data/batch'' (JArr (payloads_of parse content))
                      (items s ''jwt'')]\<rparr>,
            Some (payloads_of parse content))"
  using assms by (simp add: sendOfflineData_def Let_def)

lemma sendOfflineData_cases:
  assumes "snd (sendOfflineData parse s) = Some batch"
  shows "TELEMETRY_ON s \<and> (\<exists>content. dataStoreFile s = Content content \<and> content \<noteq> []
        \<and> batch = payloads_of parse content)"
  using assms
  by (auto simp: sendOfflineData_def Let_def split: if_splits file_state.splits)

lemma flush_failed_post:
  assumes "\<not> isResponseOk resp" and "\<not> isUserDeactivated resp"
  shows "dataStoreFile (flush parse resp a s) = dataStoreFile s
       \<and> TELEMETRY_ON (flush parse resp a s) = TELEMETRY_ON s
       \<and> items (flush parse resp a s) = items s"
  using assms
  by (auto simp: flush_def sendOfflineData_def sendOfflineData_then_def Let_def
      split: file_state.splits)

text \<open>
  C1. Take a flush whose call to \<open>sendOfflineData\<close> leaves a submit pending with batch
  \<open>batch\<close>, and a response \<open>resp\<close> that is accepted or says the account is deactivated.
  Then the callback asks for the reachability probe, after the post and as the next effect;
  the store file is deleted when the probe answers true; when it answers false the store
  file and the telemetry flag are as before the flush, and the next \<open>sendOfflineData\<close>
  submits the same batch again. Whatever the response and the probe, a flush that changes
  the store file had a confirming probe and an accepted or deactivated response.
\<close>

theorem store_cleared_only_after_recheck:
  assumes "snd (sendOfflineData parse s) = Some batch"
    and "isResponseOk resp \<or> isUserDeactivated resp"
  shows "effects (flush parse resp serverAvailable s)
           = effects s @ [SoftwarePost ''/data/batch'' (JArr batch) (items s ''jwt''),
                          ServerIsAvailable]
       \<and> dataStoreFile (flush parse resp True s) = Absent
       \<and> dataStoreFile (flush parse resp False s) = dataStoreFile s
       \<and> snd (sendOfflineData parse (flush parse resp False s)) = Some batch
       \<and> (dataStoreFile (flush parse resp' serverAvailable s) \<noteq> dataStoreFile s
            \<longrightarrow> serverAvailable \<and> (isResponseOk resp' \<or> isUserDeactivated resp'))"
proof -
  from sendOfflineData_cases [OF assms(1)] obtain content where
    c: "TELEMETRY_ON s" "dataStoreFile s = Content content" "content \<noteq> []"
       "batch = payloads_of parse content"
    by blast
  show ?thesis
    using assms(2) c
    by (auto simp: flush_def sendOfflineData_then_def sendOfflineData_resume_def
        deleteFile_def sendOfflineData_def Let_def)
qed

theorem store_cleared_only_after_recheck_witness:
  \<open>snd (sendOfflineData JSON_parse (example_state (Content ''{"a":1}'')))
     = Some [JObj [(''a'', JNum 1 0)]]
   \<and> isResponseOk accepted
   \<and> effects (flush JSON_parse accepted False (example_state (Content ''{"a":1}'')))
       = [SoftwarePost ''/data/batch'' (JArr [JObj [(''a'', JNum 1 0)]]) None, ServerIsAvailable]
   \<and> dataStoreFile (flush JSON_parse accepted True (example_state (Content ''{"a":1}'')))
       = Absent
   \<and> dataStoreFile (flush JSON_parse accepted False (example_state (Content ''{"a":1}'')))
       = Content ''{"a":1}''
   \<and> snd (sendOfflineData JSON_parse
             (flush JSON_parse accepted False (example_state (Content ''{"a":1}''))))
       = Some [JObj [(''a'', JNum 1 0)]]
   \<and> dataStoreFile (flush JSON_parse accepted True (example_state (Content ''{"a":1}'')))
       \<noteq> dataStoreFile (example_state (Content ''{"a":1}''))\<close>
proof -
  have pending: \<open>snd (sendOfflineData JSON_parse (example_state (Content ''{"a":1}'')))
     = Some [JObj [(''a'', JNum 1 0)]]\<close>
    by code_simp
  have ok: "isResponseOk accepted \<or> isUserDeactivated accepted"
    by (simp add: accepted_def)
  have changed:
    \<open>dataStoreFile (flush JSON_parse accepted True (example_state (Content ''{"a":1}'')))
       \<noteq> dataStoreFile (example_state (Content ''{"a":1}''))\<close>
    by code_simp
  from store_cleared_only_after_recheck [OF pending ok, of False accepted]
       store_cleared_only_after_recheck [OF pending ok, of True accepted]
       pending changed
  show ?thesis by (simp add: example_state_def accepted_def)
qed

lemma offline_run:
  assumes "\<forall>op\<in>set ops. while_unreachable parse stringify op"
    and "dataStoreFile s = store_text stringify eol rs0"
    and "eol \<noteq> []"
  shows "dataStoreFile (foldl (offline_step parse stringify eol) s ops)
           = store_text stringify eol (rs0 @ appended ops)
       \<and> TELEMETRY_ON (foldl (offline_step parse stringify eol) s ops) = TELEMETRY_ON s
       \<and> items (foldl (offline_step parse stringify eol) s ops) = items s"
  using assms(1,2)
proof (induction ops arbitrary: s rs0)
  case Nil
  then show ?case by (simp add: appended_def)
next
  case (Cons op ops)
  let ?s1 = "offline_step parse stringify eol s op"
  have step: "dataStoreFile ?s1 = store_text stringify eol (rs0 @ appended [op])
        \<and> TELEMETRY_ON ?s1 = TELEMETRY_ON s \<and> items ?s1 = items s"
  proof (cases op)
    case (Append r)
    then show ?thesis
      using Cons.prems(2) assms(3)
      by (auto simp: offline_step_def store_append_def store_text_def appended_def
          split: file_state.splits if_splits)
  next
    case (Attempt resp a)
    then have "\<not> isResponseOk resp" "\<not> isUserDeactivated resp"
      using Cons.prems(1) by (auto simp: while_unreachable_def)
    from flush_failed_post [OF this] show ?thesis
      using Attempt Cons.prems(2) by (simp add: offline_step_def appended_def)
  qed
  have "\<forall>op\<in>set ops. while_unreachable parse stringify op"
    using Cons.prems(1) by simp
  from Cons.IH [OF this, of ?s1 "rs0 @ appended [op]"] step
  show ?case by (simp add: appended_def)
qed

text \<open>
  C2. Start with telemetry on and no store file. Let any sequence of appends and of flush
  attempts that get no accepting answer follow, each appended record being serialised to
  one non-empty line that parses back to it. Then the next \<open>sendOfflineData\<close> submits
  exactly the appended records, in the order of the appends, each once; and when that post
  is accepted and the probe confirms, the flush consists of that one post and the probe,
  and no store file is left.
\<close>

theorem offline_records_submitted_once:
  assumes "TELEMETRY_ON s" and "dataStoreFile s = Absent"
    and "eol = [CHR 0x0A] \<or> eol = [CHR 0x0D, CHR 0x0A]"
    and "\<forall>op\<in>set ops. while_unreachable parse stringify op"
    and "appended ops \<noteq> []"
    and "isResponseOk resp"
    and "s' = foldl (offline_step parse stringify eol) s ops"
  shows "snd (sendOfflineData parse s') = Some (appended ops)
       \<and> effects (flush parse resp True s')
           = effects s' @ [SoftwarePost ''/data/batch'' (JArr (appended ops)) (items s ''jwt''),
                           ServerIsAvailable]
       \<and> dataStoreFile (flush parse resp True s') = Absent"
proof -
  have eol: "eol \<noteq> []" using assms(3) by auto
  have "dataStoreFile s = store_text stringify eol []"
    using assms(2) by (simp add: store_text_def)
  from offline_run [OF assms(4) this eol]
  have run: "dataStoreFile s' = store_text stringify eol (appended ops)"
    "TELEMETRY_ON s'" "items s' = items s"
    using assms(1,7) by simp_all
  let ?text = "concat (map (\<lambda>r. stringify r @ eol) (appended ops))"
  have store: "dataStoreFile s' = Content ?text"
    using run(1) assms(5) by (simp add: store_text_def)
  have nonempty: "?text \<noteq> []"
    using assms(5) eol by (cases "appended ops") auto
  have good: "\<forall>r\<in>set (appended ops). stringify r \<noteq> [] \<and> line_text (stringify r)
            \<and> parse (stringify r) = Some r \<and> truthy r"
    using assms(4)
    by (fastforce simp: appended_def while_unreachable_def split: offline_op.splits)
  have "payloads_of parse (?text @ []) = appended ops @ payloads_of parse []"
    using assms(3) good by (rule payloads_of_serialised)
  then have batch: "payloads_of parse ?text = appended ops"
    by (simp add: payloads_of_Nil)
  have post: "sendOfflineData parse s' =
           (s'\<lparr>effects := effects s'
                  @ [SoftwarePost ''/data/batch'' (JArr (appended ops)) (items s ''jwt'')]\<rparr>,
            Some (appended ops))"
    using sendOfflineData_posts [OF run(2) store nonempty, of parse] batch run(3) by simp
  show ?thesis
    using post assms(6)
    by (simp add: flush_def sendOfflineData_then_def sendOfflineData_resume_def deleteFile_def)
qed

theorem offline_records_submitted_once_witness:
  \<open>while_unreachable JSON_parse example_stringify (Append (JObj [(''a'', JNum 1 0)]))
   \<and> while_unreachable JSON_parse example_stringify (Attempt rejected True)
   \<and> while_unreachable JSON_parse example_stringify (Append (JObj [(''b'', JNum 2 0)]))
   \<and> snd (sendOfflineData JSON_parse
             (foldl (offline_step JSON_parse example_stringify [CHR 0x0A]) (example_state Absent)
                [Append (JObj [(''a'', JNum 1 0)]), Attempt rejected True,
                 Append (JObj [(''b'', JNum 2 0)])]))
       = Some [JObj [(''a'', JNum 1 0)], JObj [(''b'', JNum 2 0)]]
   \<and> dataStoreFile
         (flush JSON_parse accepted True
            (foldl (offline_step JSON_parse example_stringify [CHR 0x0A]) (example_state Absent)
               [Append (JObj [(''a'', JNum 1 0)]), Attempt rejected True,
                Append (JObj [(''b'', JNum 2 0)])]))
       = Absent\<close>
proof -
  let ?ops = "[Append (JObj [(''a'', JNum 1 0)]), Attempt rejected True,
               Append (JObj [(''b'', JNum 2 0)])]"
  have on: "TELEMETRY_ON (example_state Absent)"
    and absent: "dataStoreFile (example_state Absent) = Absent"
    by (simp_all add: example_state_def)
  have eol: "[CHR 0x0A] = [CHR 0x0A] \<or> [CHR 0x0A] = [CHR 0x0D, CHR 0x0A]"
    by simp
  have a: "while_unreachable JSON_parse example_stringify (Append (JObj [(''a'', JNum 1 0)]))"
    by code_simp
  have b: "while_unreachable JSON_parse example_stringify (Append (JObj [(''b'', JNum 2 0)]))"
    by code_simp
  have r: "while_unreachable JSON_parse example_stringify (Attempt rejected True)"
    by (simp add: while_unreachable_def rejected_def)
  have ops: "\<forall>op\<in>set ?ops. while_unreachable JSON_parse example_stringify op"
    using a b r by simp
  have some: "appended ?ops \<noteq> []"
    by (simp add: appended_def)
  have ok: "isResponseOk accepted"
    by (simp add: accepted_def)
  from offline_records_submitted_once [OF on absent eol ops some ok refl] a b r
  show ?thesis by (simp add: appended_def)
qed

text \<open>
  C3 (as the code has it). \<open>sendOfflineData\<close> keeps no record of a submit in flight:
  there is no guard flag in the module's state. Whenever one invocation has left a submit
  pending with batch \<open>batch\<close>, a second invocation made before any response arrives issues
  a second post with the same batch.
\<close>

theorem second_invocation_submits_again:
  assumes "snd (sendOfflineData parse s) = Some batch"
  shows "snd (sendOfflineData parse (fst (sendOfflineData parse s))) = Some batch
       \<and> effects (fst (sendOfflineData parse (fst (sendOfflineData parse s))))
           = effects s @ [SoftwarePost ''/data/batch'' (JArr batch) (items s ''jwt''),
                          SoftwarePost ''/data/batch'' (JArr batch) (items s ''jwt'')]"
  using sendOfflineData_cases [OF assms]
  by (auto simp: sendOfflineData_def Let_def)

theorem second_invocation_submits_again_witness:
  \<open>snd (sendOfflineData JSON_parse (example_state (Content ''{"b":2}'')))
     = Some [JObj [(''b'', JNum 2 0)]]
   \<and> snd (sendOfflineData JSON_parse
            (fst (sendOfflineData JSON_parse (example_state (Content ''{"b":2}'')))))
     = Some [JObj [(''b'', JNum 2 0)]]\<close>
proof -
  have pending: \<open>snd (sendOfflineData JSON_parse (example_state (Content ''{"b":2}'')))
     = Some [JObj [(''b'', JNum 2 0)]]\<close>
    by code_simp
  from second_invocation_submits_again [OF pending] pending
  show ?thesis by simp
qed

text \<open>
  The claim that the second invocation issues no submit fails on the store file \<open>{"a":1}\<close>:
  two invocations in a row leave two posts of the same record.
\<close>

theorem no_in_flight_guard_counterexample:
  \<open>snd (sendOfflineData JSON_parse
          (fst (sendOfflineData JSON_parse (example_state (Content ''{"a":1}'')))))
     = Some [JObj [(''a'', JNum 1 0)]]
   \<and> effects (fst (sendOfflineData JSON_parse
                     (fst (sendOfflineData JSON_parse (example_state (Content ''{"a":1}''))))))
     = [SoftwarePost ''/data/batch'' (JArr [JObj [(''a'', JNum 1 0)]]) None,
        SoftwarePost ''/data/batch'' (JArr [JObj [(''a'', JNum 1 0)]]) None]\<close>
  by code_simp

text \<open>
  C9 (as the code has it). When the store file is absent or its text is empty,
  \<open>sendOfflineData\<close> returns without a network call and the whole flush leaves the state as
  it was. The code tests the text of the file, not the parsed batch: with telemetry on, a
  store file whose text is not empty is posted with whatever batch its lines give, the
  empty batch included.
\<close>

theorem absent_or_empty_store_no_call:
  "(dataStoreFile s = Absent \<or> dataStoreFile s = Content [] \<longrightarrow>
      sendOfflineData parse s = (s, None) \<and> flush parse resp serverAvailable s = s)
   \<and> (TELEMETRY_ON s \<and> dataStoreFile s = Content content \<and> content \<noteq> [] \<longrightarrow>
      snd (sendOfflineData parse s) = Some (payloads_of parse content)
      \<and> effects (fst (sendOfflineData parse s))
          = effects s @ [SoftwarePost ''/data/batch'' (JArr (payloads_of parse content))
                           (items s ''jwt'')])"
  by (auto simp: sendOfflineData_def flush_def Let_def)

theorem absent_or_empty_store_no_call_witness:
  \<open>dataStoreFile (example_state (Content [])) = Content []
   \<and> sendOfflineData JSON_parse (example_state (Content [])) = (example_state (Content []), None)
   \<and> flush JSON_parse accepted True (example_state (Content [])) = example_state (Content [])
   \<and> TELEMETRY_ON (example_state (Content ''x'')) 
   \<and> dataStoreFile (example_state (Content ''x'')) = Content ''x''
   \<and> snd (sendOfflineData JSON_parse (example_state (Content ''x''))) = Some []
   \<and> effects (fst (sendOfflineData JSON_parse (example_state (Content ''x''))))
       = [SoftwarePost ''/data/batch'' (JArr []) None]\<close>
proof -
  have e: "dataStoreFile (example_state (Content [])) = Content []"
    and x: "TELEMETRY_ON (example_state (Content ''x''))"
       "dataStoreFile (example_state (Content ''x'')) = Content ''x''"
    by (simp_all add: example_state_def)
  have p: "payloads_of JSON_parse ''x'' = []"
    by code_simp
  have i: "items (example_state (Content ''x'')) ''jwt'' = None"
     "effects (example_state (Content ''x'')) = []"
    by (simp_all add: example_state_def)
  from absent_or_empty_store_no_call
         [of "example_state (Content [])" JSON_parse accepted True]
       absent_or_empty_store_no_call
         [of "example_state (Content ''x'')" JSON_parse accepted True "''x''"]
       e x p i
  show ?thesis by simp
qed

text \<open>
  The claim that an empty batch means no network call fails on the store file \<open>not-json\<close>:
  no line of it parses, the batch is empty, and the empty batch is posted.
\<close>

theorem unparseable_store_still_posts_counterexample:
  \<open>payloads_of JSON_parse ''not-json'' = []
   \<and> snd (sendOfflineData JSON_parse (example_state (Content ''not-json''))) = Some []
   \<and> effects (fst (sendOfflineData JSON_parse (example_state (Content ''not-json''))))
     = [SoftwarePost ''/data/batch'' (JArr []) None]\<close>
  by code_simp

subsection \<open>The cached login state\<close>

lemma isLoggedOn_checks:
  "checks (fst (isLoggedOn online resp s))
     = checks s + (if online \<and> truthy_item (session s ''jwt'') then 1 else 0)"
  by (auto simp: isLoggedOn_def Let_def checks_def setItem_def is_state_check_def
      split: option.splits)

lemma fetchUserStatus_checks:
  "checks (fst (fetchUserStatus online resp s))
     = checks s + (if online \<and> truthy_item (session s ''jwt'') then 1 else 0)"
  using isLoggedOn_checks [of online resp s]
  by (auto simp: fetchUserStatus_def Let_def checks_def setItem_def is_state_check_def
      split: prod.splits)

lemma fetchUserStatus_cache:
  "connectState (fst (fetchUserStatus online resp s))
     = Some (snd (fetchUserStatus online resp s))
   \<and> lastLoggedInCheckTime (fst (fetchUserStatus online resp s)) = lastLoggedInCheckTime s"
  by (auto simp: fetchUserStatus_def isLoggedOn_def Let_def setItem_def
      split: prod.splits option.splits)

lemma fetchUserStatus_offline:
  "snd (fetchUserStatus False resp s) = \<lparr>loggedIn = False\<rparr>
   \<and> connectState (fst (fetchUserStatus False resp s)) = Some \<lparr>loggedIn = False\<rparr>
   \<and> checks (fst (fetchUserStatus False resp s)) = checks s
   \<and> lastLoggedInCheckTime (fst (fetchUserStatus False resp s)) = lastLoggedInCheckTime s"
  by (simp add: fetchUserStatus_def Let_def setItem_def checks_def is_state_check_def)

lemma getUserStatus_checks_le:
  "checks (fst (getUserStatus now online ig resp s)) \<le> checks s + 1"
proof -
  have a: "checks (fst (fetchUserStatus online resp s')) \<le> checks s' + 1" for s'
    by (simp add: fetchUserStatus_checks)
  have b: "checks (s\<lparr>lastLoggedInCheckTime := x, connectState := y\<rparr>) = checks s" for x y
    by (simp add: checks_def)
  have c: "checks (s\<lparr>lastLoggedInCheckTime := x\<rparr>) = checks s" for x
    by (simp add: checks_def)
  show ?thesis
    using a [of s] a [of "s\<lparr>lastLoggedInCheckTime := None, connectState := None\<rparr>"] b c
    by (auto simp: getUserStatus_def Let_def split: option.splits)
qed

lemma getUserStatus_hit_unset:
  assumes "connectState s = Some c" and "\<not> time_set (lastLoggedInCheckTime s)"
  shows "getUserStatus now online False resp s = (s\<lparr>lastLoggedInCheckTime := Some now\<rparr>, c)"
  using assms by (simp add: getUserStatus_def)

lemma getUserStatus_hit_fresh:
  assumes "connectState s = Some c" and "time_set (lastLoggedInCheckTime s)"
    and "now - the (lastLoggedInCheckTime s) \<le> 300"
  shows "getUserStatus now online False resp s = (s, c)"
  using assms by (simp add: getUserStatus_def)

lemma getUserStatus_expired:
  assumes "connectState s \<noteq> None" and "time_set (lastLoggedInCheckTime s)"
    and "now - the (lastLoggedInCheckTime s) > 300"
  shows "getUserStatus now online False resp s
         = fetchUserStatus online resp
             (s\<lparr>lastLoggedInCheckTime := None, connectState := None\<rparr>)"
  using assms by (simp add: getUserStatus_def)

lemma getUserStatus_empty:
  assumes "ig \<or> connectState s = None"
  shows "getUserStatus now online ig resp s = fetchUserStatus online resp s"
  using assms by (auto simp: getUserStatus_def)

lemma getUserStatus_hit_checks:
  assumes "connectState s \<noteq> None"
    and "\<not> time_set (lastLoggedInCheckTime s) \<or> now - the (lastLoggedInCheckTime s) \<le> 300"
  shows "checks (fst (getUserStatus now online False resp s)) = checks s
       \<and> snd (getUserStatus now online False resp s) = the (connectState s)"
proof -
  from assms(1) obtain c where c: "connectState s = Some c" by auto
  show ?thesis
  proof (cases "time_set (lastLoggedInCheckTime s)")
    case True
    with assms(2) have "now - the (lastLoggedInCheckTime s) \<le> 300" by simp
    from getUserStatus_hit_fresh [OF c True this] c show ?thesis by simp
  next
    case False
    from getUserStatus_hit_unset [OF c False] c show ?thesis by (simp add: checks_def)
  qed
qed

text \<open>
  C5 (as the code has it). The window is measured from \<open>lastLoggedInCheckTime\<close>, and that
  time is not the time of the network check: it is set by the first call that finds a
  cached state. So: (1) two calls of \<open>getUserStatus\<close> with \<open>ignoreCache\<close> false, one after
  the other, make at most one network check between them, when the first finds a cached
  state or finds an empty cache and no check time; (2) a call that finds an empty cache
  and no check time fills the cache and leaves the check time unset; (3) a call that finds
  a cached state and no check time returns the cache without a network check, however old
  the cache is, and sets the check time to now; (4) a call that finds a cached state and a
  check time at most 300 seconds old returns the cache and changes nothing; (5) a call
  that finds a cached state and a check time more than 300 seconds old, with the server
  online and a jwt stored, makes one network check and leaves the check time unset.
\<close>

theorem cached_status_window:
  "((connectState s = None \<longrightarrow> \<not> time_set (lastLoggedInCheckTime s))
     \<longrightarrow> checks (fst (getUserStatus tb onb False rb (fst (getUserStatus ta ona False ra s))))
           \<le> checks s + 1)
   \<and> (connectState s = None \<and> \<not> time_set (lastLoggedInCheckTime s)
     \<longrightarrow> connectState (fst (getUserStatus now online False resp s)) \<noteq> None
         \<and> \<not> time_set (lastLoggedInCheckTime (fst (getUserStatus now online False resp s))))
   \<and> (connectState s = Some c \<and> \<not> time_set (lastLoggedInCheckTime s)
     \<longrightarrow> getUserStatus now online False resp s = (s\<lparr>lastLoggedInCheckTime := Some now\<rparr>, c))
   \<and> (connectState s = Some c \<and> time_set (lastLoggedInCheckTime s)
        \<and> now - the (lastLoggedInCheckTime s) \<le> 300
     \<longrightarrow> getUserStatus now online False resp s = (s, c))
   \<and> (connectState s \<noteq> None \<and> time_set (lastLoggedInCheckTime s)
        \<and> now - the (lastLoggedInCheckTime s) > 300
        \<and> online \<and> truthy_item (session s ''jwt'')
     \<longrightarrow> checks (fst (getUserStatus now online False resp s)) = checks s + 1
         \<and> lastLoggedInCheckTime (fst (getUserStatus now online False resp s)) = None)"
proof (intro conjI impI)
  let ?s1 = "fst (getUserStatus ta ona False ra s)"
  assume window: "connectState s = None \<longrightarrow> \<not> time_set (lastLoggedInCheckTime s)"
  show "checks (fst (getUserStatus tb onb False rb ?s1)) \<le> checks s + 1"
  proof (cases "connectState s")
    case None
    then have s1: "?s1 = fst (fetchUserStatus ona ra s)"
      by (simp add: getUserStatus_empty)
    with fetchUserStatus_cache [of ona ra s]
    have "connectState ?s1 \<noteq> None" "lastLoggedInCheckTime ?s1 = lastLoggedInCheckTime s"
      by simp_all
    with window None
    have "checks (fst (getUserStatus tb onb False rb ?s1)) = checks ?s1"
      using getUserStatus_hit_checks [of ?s1 tb onb rb] by simp
    then show ?thesis using getUserStatus_checks_le [of ta ona False ra s] by simp
  next
    case (Some c)
    show ?thesis
    proof (cases "time_set (lastLoggedInCheckTime s)
                  \<and> ta - the (lastLoggedInCheckTime s) > 300")
      case True
      let ?e = "s\<lparr>lastLoggedInCheckTime := None, connectState := None\<rparr>"
      from True Some have s1: "?s1 = fst (fetchUserStatus ona ra ?e)"
        by (simp add: getUserStatus_expired)
      with fetchUserStatus_cache [of ona ra ?e]
      have "connectState ?s1 \<noteq> None" "\<not> time_set (lastLoggedInCheckTime ?s1)"
        by (simp_all add: time_set_def)
      then have "checks (fst (getUserStatus tb onb False rb ?s1)) = checks ?s1"
        using getUserStatus_hit_checks [of ?s1 tb onb rb] by simp
      then show ?thesis using getUserStatus_checks_le [of ta ona False ra s] by simp
    next
      case False
      then have "checks ?s1 = checks s"
        using getUserStatus_hit_checks [of s ta ona ra] Some by auto
      then show ?thesis using getUserStatus_checks_le [of tb onb False rb ?s1] by simp
    qed
  qed
next
  assume a: "connectState s = None \<and> \<not> time_set (lastLoggedInCheckTime s)"
  then have e: "getUserStatus now online False resp s = fetchUserStatus online resp s"
    by (simp add: getUserStatus_empty)
  show "connectState (fst (getUserStatus now online False resp s)) \<noteq> None"
    unfolding e using fetchUserStatus_cache [of online resp s] by simp
  show "\<not> time_set (lastLoggedInCheckTime (fst (getUserStatus now online False resp s)))"
    unfolding e using fetchUserStatus_cache [of online resp s] a by simp
next
  assume "connectState s = Some c \<and> \<not> time_set (lastLoggedInCheckTime s)"
  then show "getUserStatus now online False resp s
             = (s\<lparr>lastLoggedInCheckTime := Some now\<rparr>, c)"
    by (simp add: getUserStatus_hit_unset)
next
  assume "connectState s = Some c \<and> time_set (lastLoggedInCheckTime s)
        \<and> now - the (lastLoggedInCheckTime s) \<le> 300"
  then show "getUserStatus now online False resp s = (s, c)"
    by (simp add: getUserStatus_hit_fresh)
next
  let ?e = "s\<lparr>lastLoggedInCheckTime := None, connectState := None\<rparr>"
  assume a: "connectState s \<noteq> None \<and> time_set (lastLoggedInCheckTime s)
        \<and> now - the (lastLoggedInCheckTime s) > 300
        \<and> online \<and> truthy_item (session s ''jwt'')"
  then have e: "getUserStatus now online False resp s = fetchUserStatus online resp ?e"
    by (simp add: getUserStatus_expired)
  from a show "checks (fst (getUserStatus now online False resp s)) = checks s + 1"
    unfolding e using fetchUserStatus_checks [of online resp ?e] by (simp add: checks_def)
  show "lastLoggedInCheckTime (fst (getUserStatus now online False resp s)) = None"
    unfolding e using fetchUserStatus_cache [of online resp ?e] by simp
qed

text \<open>
  A run from the initial state: a check at 1000, a first hit at 5000 that starts the
  window, a hit at 5300 inside it, a second check at 5301.
\<close>

theorem cached_status_window_witness:
  "connectState dc_initial = None \<and> \<not> time_set (lastLoggedInCheckTime dc_initial)
   \<and> checks (fst (getUserStatus 5000 True False anonymous_response
                    (fst (getUserStatus 1000 True False anonymous_response dc_initial))))
       \<le> checks dc_initial + 1
   \<and> connectState (fst (getUserStatus 1000 True False anonymous_response dc_initial)) \<noteq> None
   \<and> \<not> time_set (lastLoggedInCheckTime
                    (fst (getUserStatus 1000 True False anonymous_response dc_initial)))
   \<and> snd (getUserStatus 5000 True False anonymous_response
            (fst (getUserStatus 1000 True False anonymous_response dc_initial)))
       = \<lparr>loggedIn = False\<rparr>
   \<and> lastLoggedInCheckTime
         (fst (getUserStatus 5000 True False anonymous_response
                (fst (getUserStatus 1000 True False anonymous_response dc_initial))))
       = Some 5000
   \<and> checks (fst (getUserStatus 5300 True False anonymous_response
         (fst (getUserStatus 5000 True False anonymous_response
                (fst (getUserStatus 1000 True False anonymous_response dc_initial))))))
       = 1
   \<and> checks (fst (getUserStatus 5301 True False anonymous_response
         (fst (getUserStatus 5000 True False anonymous_response
                (fst (getUserStatus 1000 True False anonymous_response dc_initial))))))
       = 2"
proof -
  let ?s1 = "fst (getUserStatus 1000 True False anonymous_response dc_initial)"
  let ?s2 = "fst (getUserStatus 5000 True False anonymous_response ?s1)"
  let ?c = "\<lparr>loggedIn = False\<rparr>"
  have s0: "connectState dc_initial = None" "\<not> time_set (lastLoggedInCheckTime dc_initial)"
    "checks dc_initial = 0"
    by code_simp+
  have s1: "connectState ?s1 = Some ?c" "\<not> time_set (lastLoggedInCheckTime ?s1)"
    "checks ?s1 = 1"
    by code_simp+
  have s2: "connectState ?s2 = Some ?c" "time_set (lastLoggedInCheckTime ?s2)"
    "5300 - the (lastLoggedInCheckTime ?s2) \<le> 300"
    "5301 - the (lastLoggedInCheckTime ?s2) > 300"
    "truthy_item (session ?s2 ''jwt'')" "checks ?s2 = 1"
    by code_simp+
  note w = cached_status_window [where resp = anonymous_response and online = True]
  from w [where s = dc_initial and tb = 5000 and onb = True and rb = anonymous_response
            and ta = 1000 and ona = True and ra = anonymous_response and now = 1000]
       w [where s = ?s1 and c = ?c and now = 5000]
       w [where s = ?s2 and c = ?c and now = 5300]
       w [where s = ?s2 and c = ?c and now = 5301]
       s0 s1 s2
  show ?thesis by simp
qed

text \<open>
  The claim fails from the initial state, a jwt stored and the server online throughout:
  the only check is made at 1000, the call at 1100 is a hit and starts the window, and the
  call at 1350, more than five minutes after the check, is a hit again. So is a call at
  5000 that follows the check at 1000 directly.
\<close>

theorem cached_status_window_counterexample:
  "checks (foldl step dc_initial [Asked 1000 True False anonymous_response]) = 1
   \<and> checks (foldl step dc_initial
             [Asked 1000 True False anonymous_response,
              Asked 1100 True False anonymous_response]) = 1
   \<and> checks (foldl step dc_initial
             [Asked 1000 True False anonymous_response,
              Asked 1100 True False anonymous_response,
              Asked 1350 True False anonymous_response]) = 1
   \<and> checks (foldl step dc_initial
             [Asked 1000 True False anonymous_response,
              Asked 5000 True False anonymous_response]) = 1"
  by code_simp

text \<open>
  C6 (as the code has it). A call of \<open>getUserStatus\<close> that refreshes (it is forced, or the
  cache is empty, or the check time has run out) while the server is not online returns a
  state that is not logged in, makes no network check, and caches that state like any
  other: there is no separate value for an unknown state. The next call with \<open>ignoreCache\<close>
  false, made while the check time is unset or at most 300 seconds old, returns the cached
  state and makes no network check either, whatever the server would answer by then.
\<close>

theorem unreachable_refresh_is_cached:
  assumes "s' = fst (getUserStatus now False ignoreCache resp s)"
    and "ignoreCache \<or> connectState s = None
         \<or> (time_set (lastLoggedInCheckTime s) \<and> now - the (lastLoggedInCheckTime s) > 300)"
  shows "snd (getUserStatus now False ignoreCache resp s) = \<lparr>loggedIn = False\<rparr>
       \<and> connectState s' = Some \<lparr>loggedIn = False\<rparr>
       \<and> checks s' = checks s
       \<and> (\<not> time_set (lastLoggedInCheckTime s') \<or> now' - the (lastLoggedInCheckTime s') \<le> 300
            \<longrightarrow> snd (getUserStatus now' online' False resp' s') = \<lparr>loggedIn = False\<rparr>
              \<and> checks (fst (getUserStatus now' online' False resp' s')) = checks s)"
proof -
  let ?e = "s\<lparr>lastLoggedInCheckTime := None, connectState := None\<rparr>"
  have "getUserStatus now False ignoreCache resp s = fetchUserStatus False resp s
      \<or> getUserStatus now False ignoreCache resp s = fetchUserStatus False resp ?e"
    using assms(2) by (auto simp: getUserStatus_def)
  then have first: "snd (getUserStatus now False ignoreCache resp s) = \<lparr>loggedIn = False\<rparr>"
    "connectState s' = Some \<lparr>loggedIn = False\<rparr>" "checks s' = checks s"
    using fetchUserStatus_offline [of resp s] fetchUserStatus_offline [of resp ?e] assms(1)
    by (auto simp: checks_def)
  show ?thesis
    using first getUserStatus_hit_checks [of s' now' online' resp'] by auto
qed

theorem unreachable_refresh_is_cached_witness:
  "connectState dc_initial = None
   \<and> snd (getUserStatus 1000 False False logged_in_response dc_initial) = \<lparr>loggedIn = False\<rparr>
   \<and> connectState (fst (getUserStatus 1000 False False logged_in_response dc_initial))
       = Some \<lparr>loggedIn = False\<rparr>
   \<and> \<not> time_set (lastLoggedInCheckTime
                    (fst (getUserStatus 1000 False False logged_in_response dc_initial)))
   \<and> snd (getUserStatus 1001 True False logged_in_response
            (fst (getUserStatus 1000 False False logged_in_response dc_initial)))
       = \<lparr>loggedIn = False\<rparr>
   \<and> checks (fst (getUserStatus 1001 True False logged_in_response
                    (fst (getUserStatus 1000 False False logged_in_response dc_initial))))
       = checks dc_initial"
proof -
  let ?s' = "fst (getUserStatus 1000 False False logged_in_response dc_initial)"
  have empty: "connectState dc_initial = None"
    by code_simp
  then have refreshes: "False \<or> connectState dc_initial = None
      \<or> (time_set (lastLoggedInCheckTime dc_initial)
          \<and> 1000 - the (lastLoggedInCheckTime dc_initial) > 300)"
    by simp
  have unset: "\<not> time_set (lastLoggedInCheckTime ?s')"
    by code_simp
  from unreachable_refresh_is_cached
         [OF refl refreshes, of logged_in_response 1001 True logged_in_response]
       empty unset
  show ?thesis by simp
qed

text \<open>
  The claim fails from the initial state: the refresh at 1000 with the server offline
  caches a logged-out state, and the call at 1001, with the server online and a backend
  that would confirm the login, returns that cached state and calls nothing.
\<close>

theorem negative_state_is_cached_counterexample:
  "connectState (fst (getUserStatus 1000 False False logged_in_response dc_initial))
     = Some \<lparr>loggedIn = False\<rparr>
   \<and> snd (getUserStatus 1001 True False logged_in_response
            (fst (getUserStatus 1000 False False logged_in_response dc_initial)))
     = \<lparr>loggedIn = False\<rparr>
   \<and> dc_effects (fst (getUserStatus 1001 True False logged_in_response
            (fst (getUserStatus 1000 False False logged_in_response dc_initial)))) = []"
  by code_simp

subsection \<open>The lazy re-check and its timer\<close>

lemma isLoggedOn_frame:
  "timers (fst (isLoggedOn online resp s)) = timers s
   \<and> userFetchTimeout (fst (isLoggedOn online resp s)) = userFetchTimeout s
   \<and> awaiting (fst (isLoggedOn online resp s)) = awaiting s
   \<and> handler_runs (fst (isLoggedOn online resp s)) = handler_runs s
   \<and> fallbacks (fst (isLoggedOn online resp s)) = fallbacks s"
  by (auto simp: isLoggedOn_def Let_def setItem_def handler_runs_def fallbacks_def
      split: option.splits)

lemma isLoggedOn_result:
  "fst (snd (isLoggedOn online resp s))
     = (online \<and> truthy_item (session s ''jwt'') \<and> confirms_login resp)"
  by (auto simp: isLoggedOn_def Let_def confirms_login_def split: option.splits)

lemma fetchUserStatus_frame:
  "timers (fst (fetchUserStatus online resp s)) = timers s
   \<and> userFetchTimeout (fst (fetchUserStatus online resp s)) = userFetchTimeout s
   \<and> awaiting (fst (fetchUserStatus online resp s)) = awaiting s
   \<and> handler_runs (fst (fetchUserStatus online resp s)) = handler_runs s
   \<and> fallbacks (fst (fetchUserStatus online resp s)) = fallbacks s"
  using isLoggedOn_frame [of online resp s]
  by (auto simp: fetchUserStatus_def Let_def setItem_def handler_runs_def fallbacks_def
      split: prod.splits)

lemma fetchUserStatus_result:
  "loggedIn (snd (fetchUserStatus online resp s))
     = (online \<and> truthy_item (session s ''jwt'') \<and> confirms_login resp)"
  using isLoggedOn_result [of online resp s]
  by (auto simp: fetchUserStatus_def Let_def split: prod.splits)

lemma getUserStatus_frame:
  "timers (fst (getUserStatus now online ig resp s)) = timers s
   \<and> userFetchTimeout (fst (getUserStatus now online ig resp s)) = userFetchTimeout s
   \<and> awaiting (fst (getUserStatus now online ig resp s)) = awaiting s"
  by (auto simp: getUserStatus_def Let_def fetchUserStatus_frame split: option.splits)

lemma forced_status:
  "handler_runs (fst (getUserStatus now online True resp s)) = handler_runs s
   \<and> fallbacks (fst (getUserStatus now online True resp s)) = fallbacks s
   \<and> timers (fst (getUserStatus now online True resp s)) = timers s
   \<and> userFetchTimeout (fst (getUserStatus now online True resp s)) = userFetchTimeout s
   \<and> awaiting (fst (getUserStatus now online True resp s)) = awaiting s
   \<and> loggedIn (snd (getUserStatus now online True resp s))
       = (online \<and> truthy_item (session s ''jwt'') \<and> confirms_login resp)"
  by (simp add: getUserStatus_def fetchUserStatus_frame fetchUserStatus_result)

lemma one_timer_step: "one_timer s \<Longrightarrow> one_timer (step s e)"
proof (cases e)
  case (Refetch n)
  assume "one_timer s"
  then show ?thesis using Refetch by (auto simp: one_timer_def refetchUserStatusLazily_def)
next
  case (Asked now online ig resp)
  assume "one_timer s"
  then show ?thesis
    using Asked getUserStatus_frame [of now online ig resp s] by (simp add: one_timer_def)
next
  case (Clicked now online resp)
  assume inv: "one_timer s"
  let ?s0 = "s\<lparr>dc_effects := dc_effects s @ [ServerIsAvailable]\<rparr>"
  obtain s1 u where g: "getUserStatus now online False resp ?s0 = (s1, u)"
    by (cases "getUserStatus now online False resp ?s0")
  from getUserStatus_frame [of now online False resp ?s0] g
  have "timers s1 = timers s" "userFetchTimeout s1 = userFetchTimeout s" by simp_all
  with inv have "one_timer s1" by (simp add: one_timer_def)
  then show ?thesis
    using Clicked g
    by (auto simp: handleKpmClickedEvent_def Let_def one_timer_def refetchUserStatusLazily_def)
next
  case Fires
  assume "one_timer s"
  then show ?thesis using Fires
    by (auto simp: timer_fires_def one_timer_def split: list.splits)
next
  case (Resumes i now online resp)
  assume inv: "one_timer s"
  show ?thesis
  proof (cases "i < length (awaiting s)")
    case False
    then show ?thesis using Resumes inv by (simp add: handler_resumes_def)
  next
    case True
    let ?s0 = "s\<lparr>awaiting := take i (awaiting s) @ drop (Suc i) (awaiting s)\<rparr>"
    obtain s1 u where g: "getUserStatus now online True resp ?s0 = (s1, u)"
      by (cases "getUserStatus now online True resp ?s0")
    from getUserStatus_frame [of now online True resp ?s0] g
    have "timers s1 = timers s" "userFetchTimeout s1 = userFetchTimeout s" by simp_all
    with inv have "one_timer s1" by (simp add: one_timer_def)
    then show ?thesis
      using Resumes True g
      by (auto simp: handler_resumes_def userStatusFetchHandler_def Let_def one_timer_def
          refetchUserStatusLazily_def setItem_def clearCachedLoggedInState_def)
  qed
next
  case Cleared
  assume "one_timer s"
  then show ?thesis using Cleared by (simp add: one_timer_def clearCachedLoggedInState_def)
qed

lemma one_timer_run: "one_timer s \<Longrightarrow> one_timer (foldl step s es)"
  by (induction es arbitrary: s) (simp_all add: one_timer_step)

text \<open>
  C8 (as the code has it). The guard of \<open>refetchUserStatusLazily\<close> is the scheduled timer,
  not the campaign. From a state with at most one scheduled callback and
  \<open>userFetchTimeout\<close> set exactly when there is one (the state the module starts in is such
  a state), after any sequence of calls of \<open>refetchUserStatusLazily\<close> and of
  \<open>getUserStatus\<close>, clicks, timers firing, handlers resuming and clears of the cache: at
  most one callback is scheduled; while one is scheduled, a call of
  \<open>refetchUserStatusLazily\<close> returns the state as it is; while none is scheduled, a call
  schedules one, whether or not a handler is still waiting for the network; and when the
  scheduled callback fires, its handler joins the waiting ones, nothing is scheduled any
  more, and a call of \<open>refetchUserStatusLazily\<close> made then schedules a new timer.
\<close>

theorem refetch_guarded_by_scheduled_timer:
  assumes "one_timer s"
  shows "length (timers (foldl step s es)) \<le> 1
       \<and> (timers (foldl step s es) \<noteq> [] \<longrightarrow>
            refetchUserStatusLazily n (foldl step s es) = foldl step s es)
       \<and> (timers (foldl step s es) = [] \<longrightarrow>
            refetchUserStatusLazily n (foldl step s es)
              = (foldl step s es)\<lparr>userFetchTimeout := True, timers := [n]\<rparr>)
       \<and> (timers (foldl step s es) \<noteq> [] \<longrightarrow>
            awaiting (timer_fires (foldl step s es))
              = awaiting (foldl step s es) @ timers (foldl step s es)
            \<and> timers (timer_fires (foldl step s es)) = []
            \<and> timers (refetchUserStatusLazily n (timer_fires (foldl step s es))) = [n])"
proof -
  let ?s = "foldl step s es"
  have inv: "one_timer ?s" using assms by (rule one_timer_run)
  then have one: "length (timers ?s) \<le> 1" and guard: "userFetchTimeout ?s = (timers ?s \<noteq> [])"
    by (simp_all add: one_timer_def)
  have noop: "timers ?s \<noteq> [] \<longrightarrow> refetchUserStatusLazily n ?s = ?s"
    using guard by (simp add: refetchUserStatusLazily_def)
  have sched: "timers ?s = [] \<longrightarrow>
      refetchUserStatusLazily n ?s = ?s\<lparr>userFetchTimeout := True, timers := [n]\<rparr>"
    using guard by (simp add: refetchUserStatusLazily_def)
  have fired: "timers ?s \<noteq> [] \<longrightarrow>
            awaiting (timer_fires ?s) = awaiting ?s @ timers ?s
            \<and> timers (timer_fires ?s) = []
            \<and> timers (refetchUserStatusLazily n (timer_fires ?s)) = [n]"
    using one by (cases "timers ?s")
      (auto simp: timer_fires_def refetchUserStatusLazily_def)
  from one noop sched fired show ?thesis by blast
qed

theorem refetch_guarded_by_scheduled_timer_witness:
  "one_timer dc_initial
   \<and> timers (foldl step dc_initial
               [Clicked 1000 True anonymous_response, Refetch 7, Fires, Refetch 2,
                Resumes 0 1010 True anonymous_response, Refetch 9])
       = [2]
   \<and> refetchUserStatusLazily 5
       (foldl step dc_initial
          [Clicked 1000 True anonymous_response, Refetch 7, Fires, Refetch 2,
           Resumes 0 1010 True anonymous_response, Refetch 9])
       = foldl step dc_initial
           [Clicked 1000 True anonymous_response, Refetch 7, Fires, Refetch 2,
            Resumes 0 1010 True anonymous_response, Refetch 9]
   \<and> timers (foldl step dc_initial [Refetch 7, Fires]) = []
   \<and> awaiting (foldl step dc_initial [Refetch 7, Fires]) = [7]
   \<and> timers (refetchUserStatusLazily 5 (foldl step dc_initial [Refetch 7, Fires])) = [5]
   \<and> timers (foldl step dc_initial [Refetch 7]) = [7]
   \<and> awaiting (timer_fires (foldl step dc_initial [Refetch 7])) = [7]
   \<and> timers (refetchUserStatusLazily 5 (timer_fires (foldl step dc_initial [Refetch 7]))) = [5]"
proof -
  let ?es = "[Clicked 1000 True anonymous_response, Refetch 7, Fires, Refetch 2,
              Resumes 0 1010 True anonymous_response, Refetch 9]"
  have start: "one_timer dc_initial"
    by code_simp
  have scheduled: "timers (foldl step dc_initial ?es) = [2]"
    by code_simp
  have fired: "timers (foldl step dc_initial [Refetch 7, Fires]) = []"
    "awaiting (foldl step dc_initial [Refetch 7, Fires]) = [7]"
    by code_simp+
  have before: "timers (foldl step dc_initial [Refetch 7]) = [7]"
    "awaiting (foldl step dc_initial [Refetch 7]) = []"
    by code_simp+
  from refetch_guarded_by_scheduled_timer [OF start, of ?es 5]
       refetch_guarded_by_scheduled_timer [OF start, of "[Refetch 7, Fires]" 5]
       refetch_guarded_by_scheduled_timer [OF start, of "[Refetch 7]" 5]
       start scheduled fired before
  show ?thesis by simp
qed

text \<open>
  The claim fails from the initial state. After a campaign with the count 0 has been
  started and its timer has fired, its handler waits for the network and nothing is
  scheduled: a second call of \<open>refetchUserStatusLazily\<close> made then is not a no-op, it
  schedules a timer. With a backend that never confirms the login, the handler then runs
  twice and \<open>check_status\<close> is set twice, against once and once without the second call.
\<close>

theorem refetch_while_handler_waits_counterexample:
  "awaiting (foldl step dc_initial [Refetch 0, Fires]) = [0]
   \<and> timers (foldl step dc_initial [Refetch 0, Fires]) = []
   \<and> timers (foldl step dc_initial [Refetch 0, Fires, Refetch 0]) = [0]
   \<and> handler_runs (foldl step dc_initial
        [Refetch 0, Fires, Refetch 0, Resumes 0 1 True anonymous_response,
         Fires, Resumes 0 2 True anonymous_response]) = 2
   \<and> fallbacks (foldl step dc_initial
        [Refetch 0, Fires, Refetch 0, Resumes 0 1 True anonymous_response,
         Fires, Resumes 0 2 True anonymous_response]) = 2
   \<and> handler_runs (foldl step dc_initial
        [Refetch 0, Fires, Resumes 0 1 True anonymous_response]) = 1
   \<and> fallbacks (foldl step dc_initial
        [Refetch 0, Fires, Resumes 0 1 True anonymous_response]) = 1"
  by code_simp

text \<open>One round of a campaign: the timer fires and its handler runs to its end.\<close>

lemma round_unsuccessful:
  assumes "timers s = [n]" and "userFetchTimeout s" and "awaiting s = []"
    and "\<not> (online \<and> confirms_login resp)"
  shows "handler_runs (handler_resumes 0 now online resp (timer_fires s)) = Suc (handler_runs s)
       \<and> awaiting (handler_resumes 0 now online resp (timer_fires s)) = []
       \<and> (0 < n \<longrightarrow>
            timers (handler_resumes 0 now online resp (timer_fires s)) = [n - 1]
            \<and> userFetchTimeout (handler_resumes 0 now online resp (timer_fires s))
            \<and> fallbacks (handler_resumes 0 now online resp (timer_fires s)) = fallbacks s)
       \<and> (n = 0 \<longrightarrow>
            timers (handler_resumes 0 now online resp (timer_fires s)) = []
            \<and> \<not> userFetchTimeout (handler_resumes 0 now online resp (timer_fires s))
            \<and> fallbacks (handler_resumes 0 now online resp (timer_fires s))
                = Suc (fallbacks s))"
proof -
  let ?s0 = "s\<lparr>timers := [], userFetchTimeout := False,
                dc_effects := dc_effects s @ [ServerIsAvailable], awaiting := []\<rparr>"
  have fires: "handler_resumes 0 now online resp (timer_fires s)
        = userStatusFetchHandler n now online resp ?s0"
    using assms(1,3) by (simp add: timer_fires_def handler_resumes_def)
  obtain s1 u where g: "getUserStatus now online True resp ?s0 = (s1, u)"
    by (cases "getUserStatus now online True resp ?s0")
  from forced_status [of now online resp ?s0] g assms(4)
  have s1: "handler_runs s1 = Suc (handler_runs s)" "fallbacks s1 = fallbacks s"
    "timers s1 = []" "\<not> userFetchTimeout s1" "awaiting s1 = []" "\<not> loggedIn u"
    by (auto simp: handler_runs_def fallbacks_def)
  show ?thesis
    unfolding fires
    using g s1
    by (auto simp: userStatusFetchHandler_def refetchUserStatusLazily_def setItem_def
        handler_runs_def fallbacks_def)
qed

lemma round_any:
  assumes "timers s = [n]" and "userFetchTimeout s" and "awaiting s = []"
  shows "handler_runs (handler_resumes 0 now online resp (timer_fires s)) = Suc (handler_runs s)
       \<and> awaiting (handler_resumes 0 now online resp (timer_fires s)) = []
       \<and> ((timers (handler_resumes 0 now online resp (timer_fires s)) = [n - 1]
            \<and> 0 < n
            \<and> userFetchTimeout (handler_resumes 0 now online resp (timer_fires s))
            \<and> fallbacks (handler_resumes 0 now online resp (timer_fires s)) = fallbacks s)
          \<or> (timers (handler_resumes 0 now online resp (timer_fires s)) = []
            \<and> \<not> userFetchTimeout (handler_resumes 0 now online resp (timer_fires s))
            \<and> fallbacks (handler_resumes 0 now online resp (timer_fires s))
                \<le> Suc (fallbacks s)))"
proof -
  let ?s0 = "s\<lparr>timers := [], userFetchTimeout := False,
                dc_effects := dc_effects s @ [ServerIsAvailable], awaiting := []\<rparr>"
  have fires: "handler_resumes 0 now online resp (timer_fires s)
        = userStatusFetchHandler n now online resp ?s0"
    using assms(1,3) by (simp add: timer_fires_def handler_resumes_def)
  obtain s1 u where g: "getUserStatus now online True resp ?s0 = (s1, u)"
    by (cases "getUserStatus now online True resp ?s0")
  from forced_status [of now online resp ?s0] g
  have s1: "handler_runs s1 = Suc (handler_runs s)" "fallbacks s1 = fallbacks s"
    "timers s1 = []" "\<not> userFetchTimeout s1" "awaiting s1 = []"
    by (auto simp: handler_runs_def fallbacks_def)
  show ?thesis
    unfolding fires
    using g s1
    by (auto simp: userStatusFetchHandler_def refetchUserStatusLazily_def setItem_def
        handler_runs_def fallbacks_def clearCachedLoggedInState_def)
qed

lemma campaign_exhausts:
  assumes "timers s = [n]" and "userFetchTimeout s" and "awaiting s = []"
    and "\<forall>(now, online, resp)\<in>set outcomes. \<not> (online \<and> confirms_login resp)"
    and "n < length outcomes"
  shows "handler_runs (run_campaign outcomes s) = handler_runs s + n + 1
       \<and> fallbacks (run_campaign outcomes s) = fallbacks s + 1
       \<and> idle (run_campaign outcomes s)"
  using assms
proof (induction n arbitrary: s outcomes)
  case 0
  then obtain now online resp rest where o: "outcomes = (now, online, resp) # rest"
    by (cases outcomes) auto
  with 0 have "\<not> (online \<and> confirms_login resp)" by auto
  from round_unsuccessful [OF "0.prems"(1,2,3) this, of now]
  show ?case using o "0.prems"(1) by (cases rest) (auto simp: idle_def)
next
  case (Suc n)
  then obtain now online resp rest where o: "outcomes = (now, online, resp) # rest"
    by (cases outcomes) auto
  let ?s1 = "handler_resumes 0 now online resp (timer_fires s)"
  from Suc.prems o have u: "\<not> (online \<and> confirms_login resp)" by auto
  from round_unsuccessful [OF Suc.prems(1,2,3) u, of now]
  have r: "handler_runs ?s1 = Suc (handler_runs s)" "awaiting ?s1 = []"
    "timers ?s1 = [n]" "userFetchTimeout ?s1" "fallbacks ?s1 = fallbacks s"
    by simp_all
  have "\<forall>(now, online, resp)\<in>set rest. \<not> (online \<and> confirms_login resp)"
    using Suc.prems(4) o by auto
  moreover have "n < length rest" using Suc.prems(5) o by simp
  ultimately have "handler_runs (run_campaign rest ?s1) = handler_runs ?s1 + n + 1
       \<and> fallbacks (run_campaign rest ?s1) = fallbacks ?s1 + 1
       \<and> idle (run_campaign rest ?s1)"
    using Suc.IH [OF r(3,4,2)] by blast
  then show ?case using o r Suc.prems(1) by simp
qed

lemma campaign_bounded:
  assumes "timers s = [n]" and "userFetchTimeout s" and "awaiting s = []"
  shows "handler_runs (run_campaign outcomes s) \<le> handler_runs s + n + 1
       \<and> fallbacks (run_campaign outcomes s) \<le> fallbacks s + 1"
  using assms
proof (induction outcomes arbitrary: s n)
  case Nil
  then show ?case by simp
next
  case (Cons out outcomes)
  obtain now online resp where o: "out = (now, online, resp)" by (cases out)
  let ?s1 = "handler_resumes 0 now online resp (timer_fires s)"
  from round_any [OF Cons.prems, of now online resp]
  consider (again) "handler_runs ?s1 = Suc (handler_runs s)" "awaiting ?s1 = []"
      "timers ?s1 = [n - 1]" "0 < n" "userFetchTimeout ?s1" "fallbacks ?s1 = fallbacks s"
    | (over) "handler_runs ?s1 = Suc (handler_runs s)" "timers ?s1 = []"
      "fallbacks ?s1 \<le> Suc (fallbacks s)"
    by blast
  then show ?case
  proof cases
    case again
    from Cons.IH [OF again(3,5,2)] again(1,4,6) o Cons.prems(1)
    show ?thesis by simp
  next
    case over
    then show ?thesis using o Cons.prems(1) by (cases outcomes) auto
  qed
qed

lemma refetch_from_idle:
  assumes "idle s"
  shows "timers (refetchUserStatusLazily n s) = [n]
       \<and> userFetchTimeout (refetchUserStatusLazily n s)
       \<and> awaiting (refetchUserStatusLazily n s) = []
       \<and> handler_runs (refetchUserStatusLazily n s) = handler_runs s
       \<and> fallbacks (refetchUserStatusLazily n s) = fallbacks s"
  using assms
  by (simp add: idle_def refetchUserStatusLazily_def handler_runs_def fallbacks_def)

subsection \<open>Onboarding in a secondary window\<close>

lemma secondary_call:
  assumes "waiting_online env"
  shows "onboardInit env s = (secondaryWindowOnboarding env s, None)
       \<and> onboard_attempts (secondaryWindowOnboarding env s) = Suc (onboard_attempts s)
       \<and> (retry_counter s < 5 \<longrightarrow>
            retry_counter (secondaryWindowOnboarding env s) = Suc (retry_counter s)
            \<and> pending (secondaryWindowOnboarding env s) = pending s @ [Secondary_retry]
            \<and> anonymous_users (secondaryWindowOnboarding env s) = anonymous_users s)
       \<and> (\<not> retry_counter s < 5 \<longrightarrow>
            pending (secondaryWindowOnboarding env s) = pending s
            \<and> anonymous_users (secondaryWindowOnboarding env s) = Suc (anonymous_users s))"
  using assms
  by (auto simp: onboardInit_def secondaryWindowOnboarding_def waiting_online_def Let_def
      onboard_attempts_def anonymous_users_def)

lemma secondary_round:
  assumes "waiting_online env" and "pending s = [Secondary_retry]"
  shows "onboard_attempts (fst (onboard_timer_fires env s)) = Suc (onboard_attempts s)
       \<and> (retry_counter s < 5 \<longrightarrow>
            retry_counter (fst (onboard_timer_fires env s)) = Suc (retry_counter s)
            \<and> pending (fst (onboard_timer_fires env s)) = [Secondary_retry]
            \<and> anonymous_users (fst (onboard_timer_fires env s)) = anonymous_users s)
       \<and> (\<not> retry_counter s < 5 \<longrightarrow>
            pending (fst (onboard_timer_fires env s)) = []
            \<and> anonymous_users (fst (onboard_timer_fires env s)) = Suc (anonymous_users s))"
proof -
  have "onboard_timer_fires env s = onboardInit env (s\<lparr>pending := []\<rparr>)"
    using assms(2) by (simp add: onboard_timer_fires_def)
  with secondary_call [OF assms(1), of "s\<lparr>pending := []\<rparr>"]
  show ?thesis by (simp add: onboard_attempts_def anonymous_users_def)
qed

lemma secondary_campaign:
  assumes "pending s = [Secondary_retry]" and "retry_counter s + k = 5"
    and "\<forall>env\<in>set envs. waiting_online env" and "k < length envs"
  shows "onboard_attempts (onboard_run envs s) = onboard_attempts s + k + 1
       \<and> anonymous_users (onboard_run envs s) = anonymous_users s + 1
       \<and> pending (onboard_run envs s) = []"
  using assms
proof (induction k arbitrary: s envs)
  case 0
  then obtain env rest where e: "envs = env # rest" by (cases envs) auto
  with 0 have w: "waiting_online env" by simp
  from secondary_round [OF w "0.prems"(1)] "0.prems"(2)
  show ?case using e "0.prems"(1) by (cases rest) auto
next
  case (Suc k)
  then obtain env rest where e: "envs = env # rest" by (cases envs) auto
  with Suc.prems have w: "waiting_online env" by simp
  let ?s1 = "fst (onboard_timer_fires env s)"
  from secondary_round [OF w Suc.prems(1)] Suc.prems(2)
  have r: "onboard_attempts ?s1 = Suc (onboard_attempts s)"
    "retry_counter ?s1 = Suc (retry_counter s)" "pending ?s1 = [Secondary_retry]"
    "anonymous_users ?s1 = anonymous_users s"
    by simp_all
  have "retry_counter ?s1 + k = 5" using r(2) Suc.prems(2) by simp
  moreover have "\<forall>env\<in>set rest. waiting_online env" using Suc.prems(3) e by simp
  moreover have "k < length rest" using Suc.prems(4) e by simp
  ultimately show ?case
    using Suc.IH [OF r(3)] r(1,4) e Suc.prems(1) by simp
qed

lemma secondary_onboarding:
  assumes "pending s = []" and "retry_counter s + k = 5"
    and "waiting_online env" and "\<forall>env\<in>set envs. waiting_online env"
    and "k \<le> length envs"
  shows "onboard_attempts (onboard_run envs (fst (onboardInit env s)))
           = onboard_attempts s + k + 1
       \<and> anonymous_users (onboard_run envs (fst (onboardInit env s))) = anonymous_users s + 1
       \<and> pending (onboard_run envs (fst (onboardInit env s))) = []"
proof (cases k)
  case 0
  with assms(2) have "\<not> retry_counter s < 5" by simp
  with secondary_call [OF assms(3), of s] assms(1) 0
  show ?thesis by (cases envs) auto
next
  case (Suc j)
  let ?s1 = "fst (onboardInit env s)"
  from Suc assms(2) have "retry_counter s < 5" by simp
  with secondary_call [OF assms(3), of s] assms(1)
  have r: "onboard_attempts ?s1 = Suc (onboard_attempts s)"
    "retry_counter ?s1 = Suc (retry_counter s)" "pending ?s1 = [Secondary_retry]"
    "anonymous_users ?s1 = anonymous_users s"
    by simp_all
  have "retry_counter ?s1 + j = 5" using r(2) assms(2) Suc by simp
  moreover have "j < length envs" using assms(5) Suc by simp
  ultimately show ?thesis
    using secondary_campaign [OF r(3) _ assms(4), of j] r(1,4) Suc by simp
qed

lemma secondary_offline_call:
  assumes "waiting env" and "\<not> server_online env"
  shows "onboardInit env s
         = (s\<lparr>onboard_effects := onboard_effects s @ [ServerIsAvailable],
              pending := pending s @ [Secondary_retry]\<rparr>, None)"
  using assms
  by (simp add: onboardInit_def secondaryWindowOnboarding_def waiting_def Let_def)

lemma secondary_step:
  assumes "waiting env" and "pending s = [Secondary_retry]"
  shows "onboard_attempts (fst (onboard_timer_fires env s)) = Suc (onboard_attempts s)
       \<and> (\<not> server_online env \<longrightarrow>
            retry_counter (fst (onboard_timer_fires env s)) = retry_counter s
            \<and> pending (fst (onboard_timer_fires env s)) = [Secondary_retry]
            \<and> anonymous_users (fst (onboard_timer_fires env s)) = anonymous_users s)
       \<and> (server_online env \<and> retry_counter s < 5 \<longrightarrow>
            retry_counter (fst (onboard_timer_fires env s)) = Suc (retry_counter s)
            \<and> pending (fst (onboard_timer_fires env s)) = [Secondary_retry]
            \<and> anonymous_users (fst (onboard_timer_fires env s)) = anonymous_users s)
       \<and> (server_online env \<and> \<not> retry_counter s < 5 \<longrightarrow>
            retry_counter (fst (onboard_timer_fires env s)) = retry_counter s
            \<and> pending (fst (onboard_timer_fires env s)) = []
            \<and> anonymous_users (fst (onboard_timer_fires env s)) = Suc (anonymous_users s))"
  using assms
  by (auto simp: onboard_timer_fires_def onboardInit_def secondaryWindowOnboarding_def
      waiting_def Let_def onboard_attempts_def anonymous_users_def)

lemma secondary_mixed:
  assumes "pending s = [Secondary_retry]" and "retry_counter s \<le> 5"
    and "\<forall>env\<in>set envs. waiting env"
  shows "anonymous_users (onboard_run envs s)
           = anonymous_users s + (if 5 - retry_counter s < online_calls envs then 1 else 0)
       \<and> retry_counter (onboard_run envs s) = min 5 (retry_counter s + online_calls envs)
       \<and> pending (onboard_run envs s)
           = (if 5 - retry_counter s < online_calls envs then [] else [Secondary_retry])
       \<and> (online_calls envs \<le> 5 - retry_counter s \<longrightarrow>
            onboard_attempts (onboard_run envs s) = onboard_attempts s + length envs)"
  using assms
proof (induction envs arbitrary: s)
  case Nil
  then show ?case by (simp add: online_calls_def)
next
  case (Cons env envs)
  let ?s1 = "fst (onboard_timer_fires env s)"
  have w: "waiting env" and ws: "\<forall>env\<in>set envs. waiting env"
    using Cons.prems(3) by simp_all
  note st = secondary_step [OF w Cons.prems(1)]
  have run: "onboard_run (env # envs) s = onboard_run envs ?s1"
    using Cons.prems(1) by simp
  consider (offline) "\<not> server_online env"
    | (counted) "server_online env" "retry_counter s < 5"
    | (created) "server_online env" "retry_counter s = 5"
    using Cons.prems(2) by linarith
  then show ?case
  proof cases
    case offline
    with st have s1: "retry_counter ?s1 = retry_counter s" "pending ?s1 = [Secondary_retry]"
      "anonymous_users ?s1 = anonymous_users s" "onboard_attempts ?s1 = Suc (onboard_attempts s)"
      by simp_all
    have n: "online_calls (env # envs) = online_calls envs"
      using offline by (simp add: online_calls_def)
    from Cons.IH [OF s1(2) _ ws] s1 Cons.prems(2) n run
    show ?thesis by simp
  next
    case counted
    with st have s1: "retry_counter ?s1 = Suc (retry_counter s)" "pending ?s1 = [Secondary_retry]"
      "anonymous_users ?s1 = anonymous_users s" "onboard_attempts ?s1 = Suc (onboard_attempts s)"
      by simp_all
    have n: "online_calls (env # envs) = Suc (online_calls envs)"
      using counted by (simp add: online_calls_def)
    have "retry_counter ?s1 \<le> 5" using s1(1) counted(2) by simp
    from Cons.IH [OF s1(2) this ws] s1 counted(2) n run
    show ?thesis by (auto simp: min_def)
  next
    case created
    with st have s1: "retry_counter ?s1 = retry_counter s" "pending ?s1 = []"
      "anonymous_users ?s1 = Suc (anonymous_users s)"
      by simp_all
    have n: "online_calls (env # envs) = Suc (online_calls envs)"
      using created by (simp add: online_calls_def)
    have "onboard_run envs ?s1 = ?s1"
      using s1(2) by (cases envs) simp_all
    with run s1 created(2) n show ?thesis by simp
  qed
qed

lemma onboard_first_call:
  assumes "pending s = []"
  shows "onboard_run envs (fst (onboardInit env s))
         = onboard_run (env # envs) (s\<lparr>pending := [Secondary_retry]\<rparr>)"
proof -
  have "s\<lparr>pending := []\<rparr> = s" using assms by simp
  then show ?thesis by (simp add: onboard_timer_fires_def)
qed

lemma secondary_onboarding_mixed:
  assumes "pending s = []" and "retry_counter s \<le> 5"
    and "\<forall>e\<in>set (env # envs). waiting e"
  shows "anonymous_users (onboard_run envs (fst (onboardInit env s)))
           = anonymous_users s
             + (if 5 - retry_counter s < online_calls (env # envs) then 1 else 0)
       \<and> retry_counter (onboard_run envs (fst (onboardInit env s)))
           = min 5 (retry_counter s + online_calls (env # envs))
       \<and> pending (onboard_run envs (fst (onboardInit env s)))
           = (if 5 - retry_counter s < online_calls (env # envs) then [] else [Secondary_retry])
       \<and> (online_calls (env # envs) \<le> 5 - retry_counter s \<longrightarrow>
            onboard_attempts (onboard_run envs (fst (onboardInit env s)))
              = onboard_attempts s + length envs + 1)"
proof -
  let ?s0 = "s\<lparr>pending := [Secondary_retry]\<rparr>"
  have p: "pending ?s0 = [Secondary_retry]" "retry_counter ?s0 \<le> 5"
    using assms(2) by simp_all
  have same: "anonymous_users ?s0 = anonymous_users s" "retry_counter ?s0 = retry_counter s"
    "onboard_attempts ?s0 = onboard_attempts s"
    by (simp_all add: anonymous_users_def onboard_attempts_def)
  from secondary_mixed [OF p assms(3)] same
  show ?thesis unfolding onboard_first_call [OF assms(1)] by simp
qed

text \<open>
  C7 (as the code has it). \<open>tryCountUntilFoundUser\<close> counts the retries that are left, so a
  campaign started by \<open>refetchUserStatusLazily n\<close> from an idle controller and left to
  itself runs the handler \<open>n + 1\<close> times when no run finds the user logged in, then sets
  \<open>check_status\<close> once and is idle again; whatever the runs find, it runs the handler at most
  \<open>n + 1\<close> times and sets \<open>check_status\<close> at most once. In a secondary window, onboarding
  counts only the calls made with the server within reach. With no jwt appearing: when
  every call finds the server within reach, from a counter \<open>5 - k\<close> the call number
  \<open>k + 1\<close> creates the anonymous user, once, and nothing is scheduled after it; a call
  that finds the server out of reach asks for the server, schedules the next call and
  does nothing else, the counter staying as it is; and for every sequence of calls, within
  reach or not, from a counter of at most 5, the anonymous user is created exactly when
  more than \<open>5 - retry_counter\<close> of the calls find the server within reach, and then
  once and with nothing scheduled after it; otherwise every call is made, the counter has
  grown by the number of calls within reach, and the next call is scheduled.
\<close>

theorem retry_campaigns_end_with_one_fallback:
  "(idle s \<and> (\<forall>(now, online, resp)\<in>set outcomes. \<not> (online \<and> confirms_login resp))
      \<and> n < length outcomes
    \<longrightarrow> handler_runs (run_campaign outcomes (refetchUserStatusLazily n s))
          = handler_runs s + n + 1
        \<and> fallbacks (run_campaign outcomes (refetchUserStatusLazily n s)) = fallbacks s + 1
        \<and> idle (run_campaign outcomes (refetchUserStatusLazily n s)))
   \<and> (idle s
    \<longrightarrow> handler_runs (run_campaign outcomes (refetchUserStatusLazily n s))
          \<le> handler_runs s + n + 1
        \<and> fallbacks (run_campaign outcomes (refetchUserStatusLazily n s)) \<le> fallbacks s + 1)
   \<and> (pending os = [] \<and> retry_counter os + k = 5 \<and> waiting_online env
      \<and> (\<forall>env\<in>set envs. waiting_online env) \<and> k \<le> length envs
    \<longrightarrow> onboard_attempts (onboard_run envs (fst (onboardInit env os)))
          = onboard_attempts os + k + 1
        \<and> anonymous_users (onboard_run envs (fst (onboardInit env os)))
          = anonymous_users os + 1
        \<and> pending (onboard_run envs (fst (onboardInit env os))) = [])
   \<and> (waiting env \<and> \<not> server_online env
    \<longrightarrow> onboardInit env os
          = (os\<lparr>onboard_effects := onboard_effects os @ [ServerIsAvailable],
                pending := pending os @ [Secondary_retry]\<rparr>, None))
   \<and> (pending os = [] \<and> retry_counter os \<le> 5 \<and> (\<forall>e\<in>set (env # envs). waiting e)
    \<longrightarrow> anonymous_users (onboard_run envs (fst (onboardInit env os)))
          = anonymous_users os
            + (if 5 - retry_counter os < online_calls (env # envs) then 1 else 0)
        \<and> retry_counter (onboard_run envs (fst (onboardInit env os)))
          = min 5 (retry_counter os + online_calls (env # envs))
        \<and> pending (onboard_run envs (fst (onboardInit env os)))
          = (if 5 - retry_counter os < online_calls (env # envs) then []
             else [Secondary_retry])
        \<and> (online_calls (env # envs) \<le> 5 - retry_counter os \<longrightarrow>
             onboard_attempts (onboard_run envs (fst (onboardInit env os)))
               = onboard_attempts os + length envs + 1))"
proof (intro conjI impI)
  assume a: "idle s \<and> (\<forall>(now, online, resp)\<in>set outcomes. \<not> (online \<and> confirms_login resp))
      \<and> n < length outcomes"
  let ?s0 = "refetchUserStatusLazily n s"
  from a refetch_from_idle [of s n]
  have r: "timers ?s0 = [n]" "userFetchTimeout ?s0" "awaiting ?s0 = []"
    "handler_runs ?s0 = handler_runs s" "fallbacks ?s0 = fallbacks s"
    by simp_all
  from campaign_exhausts [OF r(1,2,3), of outcomes] a r(4,5)
  show "handler_runs (run_campaign outcomes ?s0) = handler_runs s + n + 1"
    and "fallbacks (run_campaign outcomes ?s0) = fallbacks s + 1"
    and "idle (run_campaign outcomes ?s0)"
    by simp_all
next
  assume a: "idle s"
  let ?s0 = "refetchUserStatusLazily n s"
  from a refetch_from_idle [of s n]
  have r: "timers ?s0 = [n]" "userFetchTimeout ?s0" "awaiting ?s0 = []"
    "handler_runs ?s0 = handler_runs s" "fallbacks ?s0 = fallbacks s"
    by simp_all
  from campaign_bounded [OF r(1,2,3), of outcomes] r(4,5)
  show "handler_runs (run_campaign outcomes ?s0) \<le> handler_runs s + n + 1"
    and "fallbacks (run_campaign outcomes ?s0) \<le> fallbacks s + 1"
    by simp_all
next
  assume a: "pending os = [] \<and> retry_counter os + k = 5 \<and> waiting_online env
      \<and> (\<forall>env\<in>set envs. waiting_online env) \<and> k \<le> length envs"
  then have p: "pending os = []" "retry_counter os + k = 5" "waiting_online env"
    "\<forall>env\<in>set envs. waiting_online env" "k \<le> length envs"
    by simp_all
  from secondary_onboarding [OF p]
  show "onboard_attempts (onboard_run envs (fst (onboardInit env os)))
          = onboard_attempts os + k + 1"
    and "anonymous_users (onboard_run envs (fst (onboardInit env os)))
          = anonymous_users os + 1"
    and "pending (onboard_run envs (fst (onboardInit env os))) = []"
    by simp_all
next
  assume "waiting env \<and> \<not> server_online env"
  then show "onboardInit env os
          = (os\<lparr>onboard_effects := onboard_effects os @ [ServerIsAvailable],
                pending := pending os @ [Secondary_retry]\<rparr>, None)"
    by (simp add: secondary_offline_call)
next
  assume a: "pending os = [] \<and> retry_counter os \<le> 5 \<and> (\<forall>e\<in>set (env # envs). waiting e)"
  then have p: "pending os = []" "retry_counter os \<le> 5" "\<forall>e\<in>set (env # envs). waiting e"
    by simp_all
  note m = secondary_onboarding_mixed [OF p]
  from m show "anonymous_users (onboard_run envs (fst (onboardInit env os)))
          = anonymous_users os
            + (if 5 - retry_counter os < online_calls (env # envs) then 1 else 0)"
    by blast
  from m show "retry_counter (onboard_run envs (fst (onboardInit env os)))
          = min 5 (retry_counter os + online_calls (env # envs))"
    by blast
  from m show "pending (onboard_run envs (fst (onboardInit env os)))
          = (if 5 - retry_counter os < online_calls (env # envs) then []
             else [Secondary_retry])"
    by blast
  assume "online_calls (env # envs) \<le> 5 - retry_counter os"
  with m show "onboard_attempts (onboard_run envs (fst (onboardInit env os)))
               = onboard_attempts os + length envs + 1"
    by blast
qed

theorem retry_campaigns_end_with_one_fallback_witness:
  "idle dc_initial
   \<and> \<not> (True \<and> confirms_login anonymous_response)
   \<and> handler_runs (run_campaign (replicate 6 (0, True, anonymous_response))
                      (refetchUserStatusLazily 2 dc_initial)) = 3
   \<and> fallbacks (run_campaign (replicate 6 (0, True, anonymous_response))
                    (refetchUserStatusLazily 2 dc_initial)) = 1
   \<and> handler_runs (run_campaign [(0, True, anonymous_response), (0, True, logged_in_response)]
                      (refetchUserStatusLazily 2 dc_initial)) \<le> 3
   \<and> waiting_online (secondary_env True)
   \<and> onboard_attempts (onboard_run (replicate 8 (secondary_env True))
                          (fst (onboardInit (secondary_env True) onboard_initial))) = 6
   \<and> anonymous_users (onboard_run (replicate 8 (secondary_env True))
                         (fst (onboardInit (secondary_env True) onboard_initial))) = 1
   \<and> waiting (secondary_env False) \<and> \<not> server_online (secondary_env False)
   \<and> pending (fst (onboardInit (secondary_env False) onboard_initial)) = [Secondary_retry]
   \<and> retry_counter (fst (onboardInit (secondary_env False) onboard_initial)) = 0
   \<and> online_calls (secondary_env False
        # replicate 9 (secondary_env False) @ replicate 3 (secondary_env True)) = 3
   \<and> onboard_attempts
         (onboard_run (replicate 9 (secondary_env False) @ replicate 3 (secondary_env True))
            (fst (onboardInit (secondary_env False) onboard_initial))) = 13
   \<and> retry_counter
         (onboard_run (replicate 9 (secondary_env False) @ replicate 3 (secondary_env True))
            (fst (onboardInit (secondary_env False) onboard_initial))) = 3
   \<and> anonymous_users
         (onboard_run (replicate 9 (secondary_env False) @ replicate 3 (secondary_env True))
            (fst (onboardInit (secondary_env False) onboard_initial))) = 0
   \<and> pending
         (onboard_run (replicate 9 (secondary_env False) @ replicate 3 (secondary_env True))
            (fst (onboardInit (secondary_env False) onboard_initial))) = [Secondary_retry]"
proof -
  let ?mixed = "replicate 9 (secondary_env False) @ replicate 3 (secondary_env True)"
  have i: "idle dc_initial" "handler_runs dc_initial = 0" "fallbacks dc_initial = 0"
    by code_simp+
  have u: "\<not> (True \<and> confirms_login anonymous_response)"
    by code_simp
  then have us: "\<forall>(now, online, resp)\<in>set (replicate 6 (0, True, anonymous_response)).
                  \<not> (online \<and> confirms_login resp)"
    by simp
  have len: "2 < length (replicate 6 (0::int, True, anonymous_response))"
    by simp
  have o: "pending onboard_initial = []" "retry_counter onboard_initial + 5 = 5"
    "onboard_attempts onboard_initial = 0" "anonymous_users onboard_initial = 0"
    "retry_counter onboard_initial = 0" "onboard_effects onboard_initial = []"
    by code_simp+
  have w: "waiting_online (secondary_env True)"
    by code_simp
  then have ws: "\<forall>env\<in>set (replicate 8 (secondary_env True)). waiting_online env"
    by simp
  have k: "5 \<le> length (replicate 8 (secondary_env True))"
    by simp
  have off: "waiting (secondary_env False)" "\<not> server_online (secondary_env False)"
    and on: "waiting (secondary_env True)"
    by code_simp+
  then have mixed: "\<forall>e\<in>set (secondary_env False # ?mixed). waiting e"
    by auto
  have calls: "online_calls (secondary_env False # ?mixed) = 3"
    "length ?mixed = 12"
    by code_simp+
  note t = retry_campaigns_end_with_one_fallback
             [where s = dc_initial and n = 2 and os = onboard_initial and k = 5]
  note status = t [where env = "secondary_env True"
                     and envs = "replicate 8 (secondary_env True)"]
  from status [where outcomes = "replicate 6 (0, True, anonymous_response)"]
       status [where outcomes = "[(0, True, anonymous_response), (0, True, logged_in_response)]"]
       i u us len o w ws k
  have online: "handler_runs (run_campaign (replicate 6 (0, True, anonymous_response))
                      (refetchUserStatusLazily 2 dc_initial)) = 3"
    "fallbacks (run_campaign (replicate 6 (0, True, anonymous_response))
                    (refetchUserStatusLazily 2 dc_initial)) = 1"
    "handler_runs (run_campaign [(0, True, anonymous_response), (0, True, logged_in_response)]
                      (refetchUserStatusLazily 2 dc_initial)) \<le> 3"
    "onboard_attempts (onboard_run (replicate 8 (secondary_env True))
                          (fst (onboardInit (secondary_env True) onboard_initial))) = 6"
    "anonymous_users (onboard_run (replicate 8 (secondary_env True))
                         (fst (onboardInit (secondary_env True) onboard_initial))) = 1"
    by simp_all
  note inst = t [where env = "secondary_env False" and envs = ?mixed
                   and outcomes = "replicate 6 (0, True, anonymous_response)"]
  have le: "retry_counter onboard_initial \<le> 5"
    using o(5) by simp
  from inst off
  have first: "onboardInit (secondary_env False) onboard_initial
          = (onboard_initial\<lparr>onboard_effects := onboard_effects onboard_initial
                                  @ [ServerIsAvailable],
                pending := pending onboard_initial @ [Secondary_retry]\<rparr>, None)"
    by blast
  from inst o(1) le mixed
  have run: "anonymous_users (onboard_run ?mixed
                 (fst (onboardInit (secondary_env False) onboard_initial)))
          = anonymous_users onboard_initial
            + (if 5 - retry_counter onboard_initial
                    < online_calls (secondary_env False # ?mixed) then 1 else 0)
        \<and> retry_counter (onboard_run ?mixed
                 (fst (onboardInit (secondary_env False) onboard_initial)))
          = min 5 (retry_counter onboard_initial
                    + online_calls (secondary_env False # ?mixed))
        \<and> pending (onboard_run ?mixed
                 (fst (onboardInit (secondary_env False) onboard_initial)))
          = (if 5 - retry_counter onboard_initial
                  < online_calls (secondary_env False # ?mixed) then []
             else [Secondary_retry])
        \<and> (online_calls (secondary_env False # ?mixed) \<le> 5 - retry_counter onboard_initial
            \<longrightarrow> onboard_attempts (onboard_run ?mixed
                 (fst (onboardInit (secondary_env False) onboard_initial)))
               = onboard_attempts onboard_initial + length ?mixed + 1)"
    by blast
  have offline: "pending (fst (onboardInit (secondary_env False) onboard_initial))
                   = [Secondary_retry]"
    "retry_counter (fst (onboardInit (secondary_env False) onboard_initial)) = 0"
    "onboard_attempts (onboard_run ?mixed
        (fst (onboardInit (secondary_env False) onboard_initial))) = 13"
    "retry_counter (onboard_run ?mixed
        (fst (onboardInit (secondary_env False) onboard_initial))) = 3"
    "anonymous_users (onboard_run ?mixed
        (fst (onboardInit (secondary_env False) onboard_initial))) = 0"
    "pending (onboard_run ?mixed
        (fst (onboardInit (secondary_env False) onboard_initial))) = [Secondary_retry]"
    using run calls o by (simp_all add: first)
  from i(1) u w off calls(1) online offline show ?thesis by blast
qed

text \<open>
  The claim fails on both campaigns. Started with the count 3 and a backend that never
  confirms the login, the re-check runs its handler four times before it sets
  \<open>check_status\<close>. And a secondary window that finds the server out of reach eight times in
  a row has called \<open>secondaryWindowOnboarding\<close> eight times, has counted none of them,
  has one more call scheduled and has created no anonymous user.
\<close>

theorem retry_campaigns_counterexample:
  "handler_runs (run_campaign (replicate 10 (0, True, anonymous_response))
                   (refetchUserStatusLazily 3 dc_initial)) = 4
   \<and> fallbacks (run_campaign (replicate 10 (0, True, anonymous_response))
                   (refetchUserStatusLazily 3 dc_initial)) = 1
   \<and> onboard_attempts (onboard_run (replicate 7 (secondary_env False))
                          (fst (onboardInit (secondary_env False) onboard_initial))) = 8
   \<and> retry_counter (onboard_run (replicate 7 (secondary_env False))
                       (fst (onboardInit (secondary_env False) onboard_initial))) = 0
   \<and> pending (onboard_run (replicate 7 (secondary_env False))
                 (fst (onboardInit (secondary_env False) onboard_initial))) = [Secondary_retry]
   \<and> anonymous_users (onboard_run (replicate 7 (secondary_env False))
                         (fst (onboardInit (secondary_env False) onboard_initial))) = 0"
  by code_simp

end
